theory Spec2Isabelle
  imports Main "HOL-Library.Word" "HOL-Library.List_Lexorder" "HOL-Library.Sublist"
begin

section \<open>Go strings\<close>

text \<open>
  A Go string is a sequence of bytes, and Go compares strings byte by byte, each byte
  unsigned. A byte is an 8-bit word (\<open>+\<close> wraps around), a string a list of bytes, and
  the order on strings is the lexicographic order of \<open>HOL-Library.List_Lexorder\<close> over
  the unsigned order on words. \<open>gostr\<close> writes a string literal.
\<close>

type_synonym byte = "8 word"
type_synonym gostring = "byte list"

definition gostr :: "string \<Rightarrow> gostring" where
  "gostr cs = map of_char cs"

text \<open>A string that consists of the maximum byte value only (the empty string included).\<close>

definition allFF :: "gostring \<Rightarrow> bool" where
  "allFF s = (s = replicate (length s) 0xFF)"

section \<open>The S3 enumeration: package s3, lines 17 to 84 of pkg/blobserver/s3/enumerate.go\<close>

subsection \<open>nextStr\<close>

text \<open>
  The loop of \<open>nextStr\<close>: \<open>i\<close> counts down from \<open>len(b)\<close>; each round decrements
  \<open>i\<close>, increments \<open>b[i]\<close> (a byte: 0xFF wraps to 0) and leaves the loop when the
  incremented byte is not 0.
\<close>

fun nextStr_loop :: "byte list \<Rightarrow> nat \<Rightarrow> byte list" where
  "nextStr_loop b 0 = b"
| "nextStr_loop b (Suc i) =
     (let b' = b[i := b ! i + 1]
      in if b' ! i \<noteq> 0 then b' else nextStr_loop b' i)"

definition nextStr :: "gostring \<Rightarrow> gostring" where
  "nextStr s = (if s = [] then s else nextStr_loop s (length s))"

subsection \<open>The values EnumerateBlobs works with\<close>

text \<open>
  An object of a bucket listing (\<open>obj.Key\<close>, \<open>obj.Size\<close>, an \<open>int64\<close>), the value sent
  to the destination (\<open>blob.SizedRef{Ref, Size}\<close>, its size a \<open>uint32\<close>; the size field
  is \<open>Size32\<close> here, since \<open>Size\<close> is the listing's), and the two fields of the storage
  that the function reads. The storage's S3 client is the parameter \<open>ListBucket\<close> of
  \<open>EnumerateBlobs\<close> below, and \<open>blob.Parse\<close> is the parameter \<open>Parse\<close>: the function
  is verified for every identifier codec and every client.
\<close>

record Item =
  Key :: gostring
  Size :: "64 word"

datatype 'r SizedRef = SizedRef (Ref: 'r) (Size32: "32 word")

record s3Storage =
  bucket :: gostring
  dirPrefix :: gostring

text \<open>
  Go errors: the error that the fault hook stores, an error of a backend client's own
  kind (its message), a value that \<open>fmt.Errorf\<close> makes from a format and the strings
  it formats, the error of a context that is done, and the errors of the index package
  (\<open>mgo.NotFound\<close>, \<open>ErrNotFound\<close> and the \<open>errors.New\<close> value of \<open>CommitBatch\<close>).
  An \<open>Errorf\<close> value is a plain error: it has no type or sentinel of its own and
  shows nothing but its text, which the format and the strings determine; any code, a
  backend client too, can make one.
\<close>

datatype ctxErr = Canceled | DeadlineExceeded

datatype error =
    Injected gostring
  | ClientError gostring
  | Errorf gostring "gostring list"
  | ContextError ctxErr
  | mgo_NotFound
  | ErrNotFound
  | InvalidBatchType

text \<open>
  The context and the consumer of the channel, as far as the \<open>select\<close> of lines 77 to 81
  sees them: \<open>Done_after = Some m\<close> when the consumer receives \<open>m\<close> items and the context
  is done at the next \<open>select\<close>; \<open>None\<close> when every item is received. \<open>Err\<close> is what
  \<open>ctx.Err()\<close> returns then. A \<open>select\<close> that neither side ever resolves blocks for
  ever; the model covers the calls that return.
\<close>

record Context =
  Done_after :: "nat option"
  Err :: ctxErr

definition send_accepted :: "Context \<Rightarrow> nat \<Rightarrow> bool" where
  "send_accepted ctx n = (case Done_after ctx of None \<Rightarrow> True | Some m \<Rightarrow> n < m)"

text \<open>
  What a call does, in order: the request to the client, the \<open>log.Printf\<close> of line 62,
  a value sent on \<open>dest\<close>, and \<open>close(dest)\<close>.
\<close>

datatype 'r event =
    ListBucket_call gostring gostring int
  | Log error
  | Send "'r SizedRef"
  | Close

text \<open>The error of line 75, for the basename \<open>file\<close> and the bucket.\<close>

definition nonPerkeep :: "gostring \<Rightarrow> gostring \<Rightarrow> error" where
  "nonPerkeep file bkt =
     Errorf (gostr ''non-Perkeep object named %q found in %v s3 bucket'') [file, bkt]"

subsection \<open>path.Split\<close>

text \<open>
  Go's \<open>path.Split\<close> cuts its argument right after the last slash:
  \<open>i := strings.LastIndex(path, "/"); return path[:i+1], path[i+1:]\<close>, where
  \<open>LastIndex\<close> is -1 when there is no slash.
\<close>

fun LastIndex_down :: "gostring \<Rightarrow> byte \<Rightarrow> nat \<Rightarrow> int" where
  "LastIndex_down s c 0 = - 1"
| "LastIndex_down s c (Suc i) = (if s ! i = c then int i else LastIndex_down s c i)"

definition LastIndexByte :: "gostring \<Rightarrow> byte \<Rightarrow> int" where
  "LastIndexByte s c = LastIndex_down s c (length s)"

definition path_Split :: "gostring \<Rightarrow> gostring \<times> gostring" where
  "path_Split p =
     (let i = LastIndexByte p 0x2F in (take (nat (i + 1)) p, drop (nat (i + 1)) p))"

subsection \<open>EnumerateBlobs\<close>

text \<open>Lines 56 to 59: where the listing starts.\<close>

definition startAt_of :: "(gostring \<Rightarrow> 'r option) \<Rightarrow> gostring \<Rightarrow> gostring" where
  "startAt_of Parse after = (case Parse after of Some _ \<Rightarrow> nextStr after | None \<Rightarrow> after)"

text \<open>
  Lines 65 to 82, the loop over the listed objects. \<open>n\<close> counts the values sent so far;
  the result is what the loop sends and the error it returns with (\<open>None\<close> when it runs
  to the end).
\<close>

fun enumerate_range ::
  "(gostring \<Rightarrow> 'r option) \<Rightarrow> s3Storage \<Rightarrow> Context \<Rightarrow> gostring \<Rightarrow> Item list \<Rightarrow> nat
     \<Rightarrow> 'r event list \<times> error option" where
  "enumerate_range Parse sto ctx after [] n = ([], None)"
| "enumerate_range Parse sto ctx after (obj # objs) n =
     (case path_Split (Key obj) of (dir, file) \<Rightarrow>
        if dir \<noteq> dirPrefix sto then enumerate_range Parse sto ctx after objs n
        else if file = after then enumerate_range Parse sto ctx after objs n
        else (case Parse file of
                None \<Rightarrow> ([], Some (nonPerkeep file (bucket sto)))
              | Some br \<Rightarrow>
                  if send_accepted ctx n
                  then (case enumerate_range Parse sto ctx after objs (Suc n) of
                          (evs, err) \<Rightarrow> (Send (SizedRef br (ucast (Size obj))) # evs, err))
                  else ([], Some (ContextError (Err ctx)))))"

text \<open>
  The whole function. \<open>FailErr\<close> is what \<open>faultEnumerate.FailErr(&err)\<close> does in this
  call: \<open>Some msg\<close> when the hook fires and stores an error, \<open>None\<close> when it does not.
  \<open>ListBucket bucket startAt maxKeys\<close> is the client's answer: an error, which line 63
  returns as it is, or the objects.
  The deferred \<open>close(dest)\<close> of line 52 runs when the body has returned.
\<close>

definition EnumerateBlobs_body ::
  "(gostring \<Rightarrow> 'r option) \<Rightarrow> (gostring \<Rightarrow> gostring \<Rightarrow> int \<Rightarrow> error + Item list)
     \<Rightarrow> gostring option \<Rightarrow> s3Storage \<Rightarrow> Context \<Rightarrow> gostring \<Rightarrow> int
     \<Rightarrow> 'r event list \<times> error option" where
  "EnumerateBlobs_body Parse ListBucket FailErr sto ctx after limit =
     (case FailErr of
        Some msg \<Rightarrow> ([], Some (Injected msg))
      | None \<Rightarrow>
          (let startAt = startAt_of Parse after;
               call = ListBucket_call (bucket sto) (dirPrefix sto @ startAt) limit
           in case ListBucket (bucket sto) (dirPrefix sto @ startAt) limit of
                Inl e \<Rightarrow> ([call, Log e], Some e)
              | Inr objs \<Rightarrow>
                  (case enumerate_range Parse sto ctx after objs 0 of
                     (evs, err) \<Rightarrow> (call # evs, err))))"

definition EnumerateBlobs ::
  "(gostring \<Rightarrow> 'r option) \<Rightarrow> (gostring \<Rightarrow> gostring \<Rightarrow> int \<Rightarrow> error + Item list)
     \<Rightarrow> gostring option \<Rightarrow> s3Storage \<Rightarrow> Context \<Rightarrow> gostring \<Rightarrow> int
     \<Rightarrow> 'r event list \<times> error option" where
  "EnumerateBlobs Parse ListBucket FailErr sto ctx after limit =
     (case EnumerateBlobs_body Parse ListBucket FailErr sto ctx after limit of
        (evs, err) \<Rightarrow> (evs @ [Close], err))"

subsection \<open>What the claims about EnumerateBlobs speak of\<close>

text \<open>The values sent on the channel, in order, and the number of times it is closed.\<close>

fun sent :: "'r event list \<Rightarrow> 'r SizedRef list" where
  "sent [] = []"
| "sent (Send sr # evs) = sr # sent evs"
| "sent (_ # evs) = sent evs"

definition closes :: "'r event list \<Rightarrow> nat" where
  "closes evs = length (filter (\<lambda>e. e = Close) evs)"

definition listings :: "'r event list \<Rightarrow> nat" where
  "listings evs = length (filter (\<lambda>e. case e of ListBucket_call _ _ _ \<Rightarrow> True | _ \<Rightarrow> False) evs)"

text \<open>
  An object's directory and basename, the objects of the configured namespace, the
  objects the specification selects (in the namespace, the basename a valid identifier
  strictly greater than \<open>after\<close>), the objects that stop an enumeration (in the
  namespace, not \<open>after\<close>, and not an identifier), and the value sent for an object
  whose basename is an identifier.
\<close>

definition basename :: "Item \<Rightarrow> gostring" where
  "basename obj = snd (path_Split (Key obj))"

definition in_namespace :: "s3Storage \<Rightarrow> Item \<Rightarrow> bool" where
  "in_namespace sto obj = (fst (path_Split (Key obj)) = dirPrefix sto)"

definition selected :: "(gostring \<Rightarrow> 'r option) \<Rightarrow> s3Storage \<Rightarrow> gostring \<Rightarrow> Item \<Rightarrow> bool" where
  "selected Parse sto after obj =
     (in_namespace sto obj \<and> Parse (basename obj) \<noteq> None \<and> after < basename obj)"

definition foreign :: "(gostring \<Rightarrow> 'r option) \<Rightarrow> s3Storage \<Rightarrow> gostring \<Rightarrow> Item \<Rightarrow> bool" where
  "foreign Parse sto after obj =
     (in_namespace sto obj \<and> basename obj \<noteq> after \<and> Parse (basename obj) = None)"

definition toSizedRef :: "(gostring \<Rightarrow> 'r option) \<Rightarrow> Item \<Rightarrow> 'r SizedRef" where
  "toSizedRef Parse obj = SizedRef (the (Parse (basename obj))) (ucast (Size obj))"


subsection \<open>A bucket to run EnumerateBlobs on\<close>

text \<open>
  Modelled from the spec: the backend listing call \<open>List(prefix, startKey, limit)\<close>, which
  is the S3 client's \<open>ListBucket\<close> and is not among the sources. In the specification's
  words it returns "one page of up to \<open>limit\<close> raw entries from the backend,
  lexicographically starting at" the start key; \<open>contents\<close> is what the bucket holds, in
  the order of the keys.
\<close>

definition page_of :: "Item list \<Rightarrow> gostring \<Rightarrow> int \<Rightarrow> Item list" where
  "page_of contents startAt maxKeys =
     take (nat maxKeys) (filter (\<lambda>obj. startAt \<le> Key obj) contents)"

definition ListBucket_of :: "Item list \<Rightarrow> gostring \<Rightarrow> gostring \<Rightarrow> int \<Rightarrow> error + Item list" where
  "ListBucket_of contents bkt startAt maxKeys = Inr (page_of contents startAt maxKeys)"

text \<open>
  The scenario of the specification: the namespace prefix \<open>p/\<close>, identifiers of three
  capital letters, and a bucket that holds \<open>p/AAA\<close> (size 10), \<open>p/AAB\<close> (size 20) and
  \<open>q/AAA\<close>, outside the namespace. The identifier is its own canonical string form.
\<close>

definition ex_Parse :: "gostring \<Rightarrow> gostring option" where
  "ex_Parse s = (if length s = 3 \<and> list_all (\<lambda>c. 0x41 \<le> c \<and> c \<le> 0x5A) s then Some s else None)"

definition ex_sto :: s3Storage where
  "ex_sto = \<lparr>bucket = gostr ''bkt'', dirPrefix = gostr ''p/''\<rparr>"

definition ex_contents :: "Item list" where
  "ex_contents =
     [\<lparr>Key = gostr ''p/AAA'', Size = 10\<rparr>, \<lparr>Key = gostr ''p/AAB'', Size = 20\<rparr>,
      \<lparr>Key = gostr ''q/AAA'', Size = 30\<rparr>]"

definition ex_ctx :: Context where
  "ex_ctx = \<lparr>Done_after = None, Err = Canceled\<rparr>"

text \<open>A bucket whose namespace holds an object that is not an identifier.\<close>

definition ex_foreign_contents :: "Item list" where
  "ex_foreign_contents =
     [\<lparr>Key = gostr ''p/AAA'', Size = 10\<rparr>, \<lparr>Key = gostr ''p/README'', Size = 7\<rparr>,
      \<lparr>Key = gostr ''p/ZZZ'', Size = 20\<rparr>]"

text \<open>
  A codec whose identifiers are the strings of two or more capital letters, so that one
  identifier can be the beginning of another, and a bucket that holds \<open>p/AA\<close> and
  \<open>p/AAA\<close>.
\<close>

definition ex_Parse_caps :: "gostring \<Rightarrow> gostring option" where
  "ex_Parse_caps s =
     (if 2 \<le> length s \<and> list_all (\<lambda>c. 0x41 \<le> c \<and> c \<le> 0x5A) s then Some s else None)"

definition ex_nested_contents :: "Item list" where
  "ex_nested_contents = [\<lparr>Key = gostr ''p/AA'', Size = 5\<rparr>, \<lparr>Key = gostr ''p/AAA'', Size = 10\<rparr>]"


section \<open>The index store: package index, lines 101 to 338 of the same file\<close>

subsection \<open>Documents\<close>

text \<open>
  A \<open>bson.M\<close> is a map from field names to values of any type. The code looks at the
  fields \<open>key\<close> and \<open>value\<close> and asks whether the value is a string.
\<close>

datatype bson = BString gostring | BInt int | BNull

type_synonym bsonM = "string \<rightharpoonup> bson"

definition mgoKey :: string where
  "mgoKey = ''key''"

definition mgoValue :: string where
  "mgoValue = ''value''"

subsection \<open>The collection\<close>

text \<open>
  Modelled from the spec: the backend's sorted-map calls, which are the methods of
  \<open>mgo.Collection\<close> (third-party code that is not among the sources): "point
  find-by-field, pattern find-by-prefix with ascending sort, upsert-by-field,
  delete-by-field/delete-all, each returning a not found sentinel distinguishable from
  other errors". A collection holds documents, in the order in which a query meets them.
  \<open>faults\<close> is what the connection has in store for the coming calls, one entry a
  call: \<open>Some msg\<close> when the call fails with a backend error and changes nothing; when
  the list is used up every call is served. Every definition of this subsection is part
  of this model.
\<close>

record Collection =
  docs :: "bsonM list"
  faults :: "gostring option list"

definition next_fault :: "Collection \<Rightarrow> gostring option \<times> Collection" where
  "next_fault c = (case faults c of [] \<Rightarrow> (None, c) | f # fs \<Rightarrow> (f, c\<lparr>faults := fs\<rparr>))"

text \<open>
  Modelled from the spec: find-by-field's selector \<open>bson.M{mgoKey: key}\<close>, which a
  document matches when its \<open>key\<close> field is that string.
\<close>

definition has_key :: "gostring \<Rightarrow> bsonM \<Rightarrow> bool" where
  "has_key k d = (d mgoKey = Some (BString k))"

text \<open>
  Modelled from the spec: point find-by-field, \<open>c.Find(&bson.M{mgoKey: key}).One(&res)\<close>.
  It returns the first document that matches, and the not-found sentinel
  \<open>mgo.NotFound\<close> when none does.
\<close>

definition Find_One :: "Collection \<Rightarrow> gostring \<Rightarrow> (error + bsonM) \<times> Collection" where
  "Find_One c k =
     (case next_fault c of
        (Some msg, c') \<Rightarrow> (Inl (ClientError msg), c')
      | (None, c') \<Rightarrow>
          (case find (has_key k) (docs c') of
             None \<Rightarrow> (Inl mgo_NotFound, c')
           | Some d \<Rightarrow> (Inr d, c')))"

text \<open>
  Modelled from the spec: upsert-by-field, \<open>c.Upsert(&bson.M{mgoKey: key}, doc)\<close>. The
  first document that matches becomes \<open>doc\<close>; when none matches, \<open>doc\<close> is inserted.
\<close>

fun upsert_doc :: "gostring \<Rightarrow> bsonM \<Rightarrow> bsonM list \<Rightarrow> bsonM list" where
  "upsert_doc k d [] = [d]"
| "upsert_doc k d (x # xs) = (if has_key k x then d # xs else x # upsert_doc k d xs)"

definition Upsert :: "Collection \<Rightarrow> gostring \<Rightarrow> bsonM \<Rightarrow> error option \<times> Collection" where
  "Upsert c k d =
     (case next_fault c of
        (Some msg, c') \<Rightarrow> (Some (ClientError msg), c')
      | (None, c') \<Rightarrow> (None, c'\<lparr>docs := upsert_doc k d (docs c')\<rparr>))"

text \<open>
  Modelled from the spec: delete-by-field, \<open>c.Remove(&bson.M{mgoKey: key})\<close>. It removes
  a single document, the first that matches, and returns the not-found sentinel
  \<open>mgo.NotFound\<close> when none does: the session is in safe mode (\<open>getCollection\<close> calls
  \<open>SetSafe\<close>, lines 159 and 174), in which the driver reports a removal that met no
  document.
\<close>

fun remove_doc :: "gostring \<Rightarrow> bsonM list \<Rightarrow> bsonM list" where
  "remove_doc k [] = []"
| "remove_doc k (x # xs) = (if has_key k x then xs else x # remove_doc k xs)"

definition Remove :: "Collection \<Rightarrow> gostring \<Rightarrow> error option \<times> Collection" where
  "Remove c k =
     (case next_fault c of
        (Some msg, c') \<Rightarrow> (Some (ClientError msg), c')
      | (None, c') \<Rightarrow>
          if list_ex (has_key k) (docs c')
          then (None, c'\<lparr>docs := remove_doc k (docs c')\<rparr>)
          else (Some mgo_NotFound, c'))"

text \<open>Modelled from the spec: delete-all, \<open>c.RemoveAll(nil)\<close>. It removes every document.\<close>

definition RemoveAll :: "Collection \<Rightarrow> error option \<times> Collection" where
  "RemoveAll c =
     (case next_fault c of
        (Some msg, c') \<Rightarrow> (Some (ClientError msg), c')
      | (None, c') \<Rightarrow> (None, c'\<lparr>docs := []\<rparr>))"

text \<open>
  Modelled from the spec: pattern find-by-prefix with ascending sort,
  \<open>c.Find(&bson.M{mgoKey: &bson.M{"$regex": pat}}).Sort(&bson.M{mgoKey: 1}).Iter()\<close>.
  It yields the documents whose \<open>key\<close> is a string that the pattern matches, ascending
  by key (byte by byte). The parameter \<open>re\<close> is the backend's regular-expression
  search: \<open>re pat s\<close> when \<open>pat\<close> matches somewhere in \<open>s\<close>. A query that fails
  yields no document.
\<close>

definition key_string :: "bsonM \<Rightarrow> gostring" where
  "key_string d = (case d mgoKey of Some (BString k) \<Rightarrow> k | _ \<Rightarrow> [])"

definition regex_matches :: "(gostring \<Rightarrow> gostring \<Rightarrow> bool) \<Rightarrow> gostring \<Rightarrow> bsonM \<Rightarrow> bool" where
  "regex_matches re pat d = (case d mgoKey of Some (BString k) \<Rightarrow> re pat k | _ \<Rightarrow> False)"

definition Find_Regex_Sort_Iter ::
  "(gostring \<Rightarrow> gostring \<Rightarrow> bool) \<Rightarrow> Collection \<Rightarrow> gostring \<Rightarrow> bsonM list \<times> Collection" where
  "Find_Regex_Sort_Iter re c pat =
     (case next_fault c of
        (Some msg, c') \<Rightarrow> ([], c')
      | (None, c') \<Rightarrow> (sort_key key_string (filter (regex_matches re pat) (docs c')), c'))"

text \<open>
  The data model's invariant: the entries of a collection are unique by key. \<open>key_of\<close>
  is the key of a document whose \<open>key\<close> field is a string.
\<close>

definition key_of :: "bsonM \<Rightarrow> gostring option" where
  "key_of d = (case d mgoKey of Some (BString k) \<Rightarrow> Some k | _ \<Rightarrow> None)"

definition unique_keys :: "Collection \<Rightarrow> bool" where
  "unique_keys c = distinct (List.map_filter key_of (docs c))"

subsection \<open>mongoStrIterator\<close>

text \<open>
  The iterator: the document read last (\<open>res\<close>) and the cursor (\<open>Iter\<close>), which is the
  documents still to come. The methods are \<open>Next\<close>, \<open>Key\<close>, \<open>Value\<close> and \<open>Close\<close> of
  the source; \<open>Key\<close> is taken by the listing's field.
\<close>

record mongoStrIterator =
  res :: bsonM
  Iter :: "bsonM list"

definition IterNext :: "mongoStrIterator \<Rightarrow> bool \<times> mongoStrIterator" where
  "IterNext s = (case Iter s of [] \<Rightarrow> (False, s) | d # ds \<Rightarrow> (True, \<lparr>res = d, Iter = ds\<rparr>))"

definition IterKey :: "mongoStrIterator \<Rightarrow> gostring" where
  "IterKey s = (case res s mgoKey of Some (BString k) \<Rightarrow> k | _ \<Rightarrow> [])"

definition IterValue :: "mongoStrIterator \<Rightarrow> gostring" where
  "IterValue s = (case res s mgoValue of Some (BString v) \<Rightarrow> v | _ \<Rightarrow> [])"

definition IterClose :: "mongoStrIterator \<Rightarrow> error option" where
  "IterClose s = None"

text \<open>Reading an iterator to its end, as a caller does: the keys and values it yields.\<close>

function drain :: "mongoStrIterator \<Rightarrow> (gostring \<times> gostring) list" where
  "drain s =
     (if fst (IterNext s)
      then (IterKey (snd (IterNext s)), IterValue (snd (IterNext s))) # drain (snd (IterNext s))
      else [])"
  by pat_completeness auto
termination
  by (relation "measure (\<lambda>s. length (Iter s))") (auto simp: IterNext_def split: list.splits)

subsection \<open>mongoKeys\<close>

text \<open>
  The store is its collection \<open>db\<close>; the mutex \<open>mu\<close> makes the methods run one at a
  time, which is how they are composed here. A Go call returns or panics.
\<close>

type_synonym mongoKeys = Collection

datatype 'a outcome = Returns 'a | Panics

definition Get :: "mongoKeys \<Rightarrow> gostring \<Rightarrow> (gostring \<times> error option) outcome \<times> mongoKeys" where
  "Get mk k =
     (case Find_One mk k of
        (Inl err, mk') \<Rightarrow>
          (if err = mgo_NotFound then Returns ([], Some ErrNotFound) else Returns ([], Some err), mk')
      | (Inr r, mk') \<Rightarrow>
          (case r mgoValue of
             Some (BString v) \<Rightarrow> (Returns (v, None), mk')
           | _ \<Rightarrow> (Panics, mk')))"

text \<open>\<open>strings.Replace(s, old, new, -1)\<close> for an \<open>old\<close> of one byte.\<close>

definition Replace_byte :: "gostring \<Rightarrow> byte \<Rightarrow> gostring \<Rightarrow> gostring" where
  "Replace_byte s old new = concat (map (\<lambda>c. if c = old then new else [c]) s)"

definition Find ::
  "(gostring \<Rightarrow> gostring \<Rightarrow> bool) \<Rightarrow> mongoKeys \<Rightarrow> gostring \<Rightarrow> mongoStrIterator \<times> mongoKeys" where
  "Find re mk k =
     (let cleanedKey = Replace_byte k 0x7C [0x5C, 0x7C]
      in case Find_Regex_Sort_Iter re mk (0x5E # cleanedKey) of
           (iter, mk') \<Rightarrow> (\<lparr>res = Map.empty, Iter = iter\<rparr>, mk'))"

definition Set :: "mongoKeys \<Rightarrow> gostring \<Rightarrow> gostring \<Rightarrow> error option \<times> mongoKeys" where
  "Set mk k v = Upsert mk k [mgoKey \<mapsto> BString k, mgoValue \<mapsto> BString v]"

definition Delete :: "mongoKeys \<Rightarrow> gostring \<Rightarrow> error option \<times> mongoKeys" where
  "Delete mk k = (if k = [] then RemoveAll mk else Remove mk k)"

subsection \<open>Batches\<close>

text \<open>
  A pending mutation (the fields \<open>key\<close>, \<open>value\<close> and \<open>delete\<close> that \<open>CommitBatch\<close>
  reads) and the argument of \<open>CommitBatch\<close>: a \<open>*batch\<close> with its mutations \<open>m\<close>, or a
  value of another type that implements \<open>BatchMutation\<close>.
\<close>

record mutation =
  m_key :: gostring
  m_value :: gostring
  m_delete :: bool

datatype BatchMutation = Batch "mutation list" | OtherBatchMutation

definition BeginBatch :: "mongoKeys \<Rightarrow> BatchMutation" where
  "BeginBatch mk = Batch []"

text \<open>
  Modelled from the spec: the methods \<open>Set\<close> and \<open>Delete\<close> of a batch, which are not
  among the sources. A batch is "an ordered sequence of pending mutations, each either
  \<open>Set(key, value)\<close> or \<open>Delete(key)\<close>", and has no effect on the store until
  committed.
\<close>

definition batch_Set :: "BatchMutation \<Rightarrow> gostring \<Rightarrow> gostring \<Rightarrow> BatchMutation" where
  "batch_Set bm k v =
     (case bm of Batch ms \<Rightarrow> Batch (ms @ [\<lparr>m_key = k, m_value = v, m_delete = False\<rparr>])
      | OtherBatchMutation \<Rightarrow> OtherBatchMutation)"

definition batch_Delete :: "BatchMutation \<Rightarrow> gostring \<Rightarrow> BatchMutation" where
  "batch_Delete bm k =
     (case bm of Batch ms \<Rightarrow> Batch (ms @ [\<lparr>m_key = k, m_value = [], m_delete = True\<rparr>])
      | OtherBatchMutation \<Rightarrow> OtherBatchMutation)"

text \<open>Lines 326 to 337 of \<open>CommitBatch\<close>: the loop over \<open>b.m\<close>.\<close>

fun commit_range :: "mongoKeys \<Rightarrow> mutation list \<Rightarrow> error option \<times> mongoKeys" where
  "commit_range mk [] = (None, mk)"
| "commit_range mk (m # ms) =
     (if m_delete m
      then (case Remove mk (m_key m) of
              (Some err, mk') \<Rightarrow> (Some err, mk')
            | (None, mk') \<Rightarrow> commit_range mk' ms)
      else (case Upsert mk (m_key m) [mgoKey \<mapsto> BString (m_key m), mgoValue \<mapsto> BString (m_value m)] of
              (Some err, mk') \<Rightarrow> (Some err, mk')
            | (None, mk') \<Rightarrow> commit_range mk' ms))"

definition CommitBatch :: "mongoKeys \<Rightarrow> BatchMutation \<Rightarrow> error option \<times> mongoKeys" where
  "CommitBatch mk bm =
     (case bm of
        OtherBatchMutation \<Rightarrow> (Some InvalidBatchType, mk)
      | Batch ms \<Rightarrow> commit_range mk ms)"

subsection \<open>A pattern dialect to run Find on\<close>

text \<open>
  Modelled from the spec: the backend's pattern matching, which is the regular
  expression search of the database (Perl-compatible) and is not among the sources.
  The fragment that prefixes of keys reach: an ordinary byte matches itself, \<open>.\<close>
  matches any byte but a newline, a backslash makes the punctuation byte after it
  ordinary, \<open>^\<close> matches at the start of the subject only, and \<open>|\<close> separates
  alternatives, each of which may match anywhere in the subject. A pattern with
  another metacharacter, or one that ends in a backslash, is outside the fragment and
  matches nothing here.
\<close>

datatype token = TLit byte | TAny | TBol | TBar

definition is_alnum :: "byte \<Rightarrow> bool" where
  "is_alnum c = ((0x30 \<le> c \<and> c \<le> 0x39) \<or> (0x41 \<le> c \<and> c \<le> 0x5A) \<or> (0x61 \<le> c \<and> c \<le> 0x7A))"

definition other_meta :: "byte \<Rightarrow> bool" where
  "other_meta c = (c \<in> set [0x24, 0x28, 0x29, 0x2A, 0x2B, 0x3F, 0x5B, 0x5D, 0x7B, 0x7D])"

fun tokens :: "gostring \<Rightarrow> token list option" where
  "tokens [] = Some []"
| "tokens [c] =
     (if c = 0x5C \<or> other_meta c then None
      else Some [if c = 0x2E then TAny else if c = 0x5E then TBol else if c = 0x7C then TBar else TLit c])"
| "tokens (c # d # cs) =
     (if c = 0x5C then (if is_alnum d then None else map_option ((#) (TLit d)) (tokens cs))
      else if other_meta c then None
      else map_option ((#) (if c = 0x2E then TAny else if c = 0x5E then TBol
                            else if c = 0x7C then TBar else TLit c)) (tokens (d # cs)))"

fun alternatives :: "token list \<Rightarrow> token list list" where
  "alternatives [] = [[]]"
| "alternatives (TBar # ts) = [] # alternatives ts"
| "alternatives (t # ts) = (case alternatives ts of a # as \<Rightarrow> (t # a) # as | [] \<Rightarrow> [[t]])"

fun match_here :: "token list \<Rightarrow> bool \<Rightarrow> gostring \<Rightarrow> bool" where
  "match_here [] at_start s = True"
| "match_here (TBol # ts) at_start s = (at_start \<and> match_here ts at_start s)"
| "match_here (TBar # ts) at_start s = False"
| "match_here (t # ts) at_start [] = False"
| "match_here (TLit c # ts) at_start (x # s) = (x = c \<and> match_here ts False s)"
| "match_here (TAny # ts) at_start (x # s) = (x \<noteq> 0x0A \<and> match_here ts False s)"

fun match_anywhere :: "token list \<Rightarrow> bool \<Rightarrow> gostring \<Rightarrow> bool" where
  "match_anywhere ts at_start [] = match_here ts at_start []"
| "match_anywhere ts at_start (x # s) = (match_here ts at_start (x # s) \<or> match_anywhere ts False s)"

definition pcre_search :: "gostring \<Rightarrow> gostring \<Rightarrow> bool" where
  "pcre_search pat s =
     (case tokens pat of
        None \<Rightarrow> False
      | Some ts \<Rightarrow> list_ex (\<lambda>alt. match_anywhere alt True s) (alternatives ts))"

text \<open>A byte that the dialect reads as itself.\<close>

definition plain :: "byte \<Rightarrow> bool" where
  "plain c = (c \<noteq> 0x5C \<and> c \<noteq> 0x2E \<and> c \<noteq> 0x5E \<and> c \<noteq> 0x7C \<and> \<not> other_meta c)"

subsection \<open>Stores to run the index on\<close>

text \<open>
  A store that holds the entry \<open>k1 -> v1\<close>, an empty store, and a store whose
  document for \<open>k1\<close> has a value that is not a string.
\<close>

definition ex_store :: mongoKeys where
  "ex_store = \<lparr>docs = [[mgoKey \<mapsto> BString (gostr ''k1''), mgoValue \<mapsto> BString (gostr ''v1'')]], faults = []\<rparr>"

definition ex_other_store :: mongoKeys where
  "ex_other_store = \<lparr>docs = [], faults = []\<rparr>"

definition ex_bad_store :: mongoKeys where
  "ex_bad_store = \<lparr>docs = [[mgoKey \<mapsto> BString (gostr ''k1''), mgoValue \<mapsto> BInt 7]], faults = []\<rparr>"

text \<open>A store with the keys \<open>abc\<close>, \<open>b\<close> and \<open>a.c\<close>.\<close>

definition ex_dotted_store :: mongoKeys where
  "ex_dotted_store =
     \<lparr>docs = [[mgoKey \<mapsto> BString (gostr ''abc''), mgoValue \<mapsto> BString (gostr ''1'')],
              [mgoKey \<mapsto> BString (gostr ''b''), mgoValue \<mapsto> BString (gostr ''2'')],
              [mgoKey \<mapsto> BString (gostr ''a.c''), mgoValue \<mapsto> BString (gostr ''3'')]],
      faults = []\<rparr>"

section \<open>Properties of nextStr\<close>

lemma allFF_iff: "allFF s \<longleftrightarrow> (\<forall>c\<in>set s. c = 0xFF)"
proof
  assume "allFF s"
  then have "s = replicate (length s) 0xFF" by (simp add: allFF_def)
  then have "set s \<subseteq> {0xFF}" by (metis set_replicate_conv_if empty_subsetI subset_refl)
  then show "\<forall>c\<in>set s. c = 0xFF" by auto
next
  assume "\<forall>c\<in>set s. c = 0xFF"
  then have "s = replicate (length s) 0xFF"
    by (simp add: replicate_length_same [symmetric])
  then show "allFF s" by (simp add: allFF_def)
qed

lemma byte_plus_one_zero: "(c :: byte) + 1 = 0 \<longleftrightarrow> c = 0xFF"
proof
  assume "c + 1 = 0"
  then have "c = 0 - 1" by (metis add_diff_cancel_right')
  then show "c = 0xFF" by simp
next
  assume "c = 0xFF"
  then show "c + 1 = 0" by simp
qed

lemma unat_byte_less: "unat (c :: byte) < 256"
  using unsigned_less [of c, where ?'a = nat] by simp

lemma byte_less_plus_one: "(c :: byte) \<noteq> 0xFF \<Longrightarrow> c < c + 1"
proof -
  assume ne: "c \<noteq> 0xFF"
  have "unat c \<noteq> 255"
  proof
    assume "unat c = 255"
    then have "word_of_nat (unat c) = (word_of_nat 255 :: byte)" by simp
    then have "c = 255" by simp
    with ne show False by simp
  qed
  with unat_byte_less [of c] have lt: "unat c + 1 < 256" by arith
  have "unat (c + 1) = (unat c + 1) mod 256"
    by (simp add: unat_word_ariths)
  with lt have "unat (c + 1) = unat c + 1" by simp
  then show ?thesis by (simp add: word_less_nat_alt)
qed

lemma length_nextStr_loop: "length (nextStr_loop b i) = length b"
  by (induction b i rule: nextStr_loop.induct) (simp_all add: Let_def)

text \<open>Two strings that agree before position \<open>j\<close> and differ there compare as their bytes at \<open>j\<close>.\<close>

lemma less_at_first_difference:
  assumes "j < length a" and "j < length b" and "take j a = take j b" and "a ! j < b ! j"
  shows "a < b"
proof -
  have a: "a = take j a @ a ! j # drop (Suc j) a"
    using assms(1) by (simp add: id_take_nth_drop [symmetric])
  have b: "b = take j a @ b ! j # drop (Suc j) b"
    using assms(2,3) by (simp add: id_take_nth_drop [symmetric])
  have "(take j a @ a ! j # drop (Suc j) a, take j a @ b ! j # drop (Suc j) b)
          \<in> lexord {(u, v). u < v}"
    using assms(4) by (intro lexord_append_left_rightI) simp
  then show ?thesis
    using a b by (metis list_less_def)
qed

text \<open>
  When one of the first \<open>i\<close> bytes is not 0xFF, the loop leaves the bytes before some
  position \<open>j < i\<close> as they were and makes the byte at \<open>j\<close> greater.
\<close>

lemma nextStr_loop_raises:
  assumes "i \<le> length b" and "\<exists>j<i. b ! j \<noteq> 0xFF"
  shows "\<exists>j<i. take j (nextStr_loop b i) = take j b \<and> b ! j < nextStr_loop b i ! j"
  using assms
proof (induction b i rule: nextStr_loop.induct)
  case (1 b)
  then show ?case by simp
next
  case (2 b i)
  let ?b' = "b[i := b ! i + 1]"
  show ?case
  proof (cases "b ! i = 0xFF")
    case False
    then have ne: "?b' ! i \<noteq> 0"
      using "2.prems"(1) by (simp add: byte_plus_one_zero)
    have "take i ?b' = take i b" by simp
    moreover have "b ! i < ?b' ! i"
      using False "2.prems"(1) by (simp add: byte_less_plus_one)
    ultimately show ?thesis
      using ne by (auto simp: Let_def)
  next
    case True
    then have z: "?b' ! i = 0"
      using "2.prems"(1) by simp
    have len: "i \<le> length ?b'" using "2.prems"(1) by simp
    from "2.prems"(2) True obtain j where j: "j < i" "b ! j \<noteq> 0xFF"
      by (metis less_Suc_eq)
    then have "\<exists>j<i. ?b' ! j \<noteq> 0xFF" by auto
    with "2.IH" [OF refl _ len] z
    obtain k where k: "k < i" "take k (nextStr_loop ?b' i) = take k ?b'"
        "?b' ! k < nextStr_loop ?b' i ! k"
      by auto
    have "take k ?b' = take k b" using k(1) by simp
    moreover have "?b' ! k = b ! k" using k(1) by simp
    ultimately have "take k (nextStr_loop ?b' i) = take k b \<and> b ! k < nextStr_loop ?b' i ! k"
      using k by simp
    then show ?thesis
      using z k(1) by (auto simp: Let_def intro: less_SucI)
  qed
qed

text \<open>When the first \<open>i\<close> bytes are all 0xFF, the loop turns every one of them to 0.\<close>

lemma nextStr_loop_wraps:
  assumes "i \<le> length b" and "\<forall>j<i. b ! j = 0xFF"
  shows "nextStr_loop b i = replicate i 0 @ drop i b"
  using assms
proof (induction b i rule: nextStr_loop.induct)
  case (1 b)
  then show ?case by simp
next
  case (2 b i)
  let ?b' = "b[i := b ! i + 1]"
  have i: "i < length b" using "2.prems"(1) by simp
  have z: "?b' ! i = 0" using i "2.prems"(2) by simp
  have "\<forall>j<i. ?b' ! j = 0xFF" using "2.prems"(2) by simp
  with "2.IH" [OF refl] z i have "nextStr_loop ?b' i = replicate i 0 @ drop i ?b'"
    by simp
  moreover have "drop i ?b' = 0 # drop (Suc i) b"
    using i z by (metis Cons_nth_drop_Suc drop_update_cancel length_list_update lessI)
  ultimately have "nextStr_loop ?b' i = replicate (Suc i) 0 @ drop (Suc i) b"
    by (simp add: replicate_app_Cons_same)
  then show ?case using z by (simp add: Let_def)
qed

lemma nextStr_length: "length (nextStr s) = length s"
  by (simp add: nextStr_def length_nextStr_loop)

lemma nextStr_wraps:
  assumes "allFF s"
  shows "nextStr s = replicate (length s) 0"
proof -
  from assms have "\<forall>j<length s. s ! j = 0xFF"
    by (simp add: allFF_iff)
  then have "nextStr_loop s (length s) = replicate (length s) 0"
    using nextStr_loop_wraps [of "length s" s] by simp
  then show ?thesis
    by (cases "s = []") (simp_all add: nextStr_def)
qed

lemma nextStr_greater:
  assumes "\<not> allFF s"
  shows "s < nextStr s"
proof -
  from assms obtain j where j: "j < length s" "s ! j \<noteq> 0xFF"
    by (auto simp: allFF_iff in_set_conv_nth)
  then have ne: "s \<noteq> []" by auto
  from j have "\<exists>j<length s. s ! j \<noteq> 0xFF" by blast
  from nextStr_loop_raises [OF le_refl this]
  obtain k where k: "k < length s" "take k (nextStr_loop s (length s)) = take k s"
      "s ! k < nextStr_loop s (length s) ! k"
    by blast
  have "s < nextStr_loop s (length s)"
    by (rule less_at_first_difference [of k])
       (use k in \<open>simp_all add: length_nextStr_loop\<close>)
  with ne show ?thesis by (simp add: nextStr_def)
qed

lemma nextStr_not_less:
  assumes "s = [] \<or> \<not> allFF s"
  shows "s \<le> nextStr s"
  using assms nextStr_greater [of s] by (auto simp: nextStr_def)

lemma nextStr_loop_Cons:
  "i \<le> length xs \<Longrightarrow>
   nextStr_loop (x # xs) (Suc i) =
     (if \<forall>j<i. xs ! j = 0xFF then (x + 1) # replicate i 0 @ drop i xs
      else x # nextStr_loop xs i)"
proof (induction i arbitrary: xs)
  case 0
  show ?case by (simp add: Let_def)
next
  case (Suc i)
  let ?xs' = "xs[i := xs ! i + 1]"
  have i: "i < length xs" using Suc.prems by simp
  have step: "nextStr_loop (x # xs) (Suc (Suc i)) =
      (if ?xs' ! i \<noteq> 0 then x # ?xs' else nextStr_loop (x # ?xs') (Suc i))"
    by (subst nextStr_loop.simps(2)) (simp add: Let_def del: nextStr_loop.simps)
  have r: "nextStr_loop xs (Suc i) = (if ?xs' ! i \<noteq> 0 then ?xs' else nextStr_loop ?xs' i)"
    by (subst nextStr_loop.simps(2)) (simp add: Let_def del: nextStr_loop.simps)
  show ?case
  proof (cases "xs ! i = 0xFF")
    case False
    then have nz: "?xs' ! i \<noteq> 0" using i by (simp add: byte_plus_one_zero)
    from False have "\<not> (\<forall>j<Suc i. xs ! j = 0xFF)" by blast
    with nz step r show ?thesis by (simp del: nextStr_loop.simps)
  next
    case True
    then have z: "?xs' ! i = 0" using i by simp
    have len: "i \<le> length ?xs'" using i by simp
    have d: "drop i ?xs' = 0 # drop (Suc i) xs"
      using i z by (metis Cons_nth_drop_Suc drop_update_cancel length_list_update lessI)
    show ?thesis
    proof (cases "\<forall>j<i. xs ! j = 0xFF")
      case all: True
      then have A: "\<forall>j<i. ?xs' ! j = 0xFF" by simp
      have B: "\<forall>j<Suc i. xs ! j = 0xFF" using all True by (auto simp: less_Suc_eq)
      have "nextStr_loop (x # ?xs') (Suc i) = (x + 1) # replicate i 0 @ drop i ?xs'"
        using Suc.IH [OF len] A by (simp del: nextStr_loop.simps)
      also have "\<dots> = (x + 1) # replicate (Suc i) 0 @ drop (Suc i) xs"
        by (simp only: d) (simp add: replicate_app_Cons_same)
      finally have "nextStr_loop (x # ?xs') (Suc i) = (x + 1) # replicate (Suc i) 0 @ drop (Suc i) xs" .
      with step z B show ?thesis by (simp del: nextStr_loop.simps)
    next
      case False
      then have A: "\<not> (\<forall>j<i. ?xs' ! j = 0xFF)" by simp
      have B: "\<not> (\<forall>j<Suc i. xs ! j = 0xFF)" using False by (meson less_SucI)
      have "nextStr_loop (x # ?xs') (Suc i) = x # nextStr_loop ?xs' i"
        using Suc.IH [OF len] A by (simp del: nextStr_loop.simps)
      with step z B r show ?thesis by (simp del: nextStr_loop.simps)
    qed
  qed
qed

lemma allFF_nth: "allFF xs \<longleftrightarrow> (\<forall>j<length xs. xs ! j = 0xFF)"
  by (simp add: allFF_iff all_set_conv_all_nth)

lemma nextStr_Cons:
  "nextStr (x # xs) = (if allFF xs then (x + 1) # replicate (length xs) 0 else x # nextStr xs)"
proof -
  have "nextStr (x # xs) = nextStr_loop (x # xs) (Suc (length xs))"
    by (simp add: nextStr_def)
  also have "\<dots> = (if allFF xs then (x + 1) # replicate (length xs) 0
      else x # nextStr_loop xs (length xs))"
    by (simp add: nextStr_loop_Cons allFF_nth del: nextStr_loop.simps)
  also have "\<dots> = (if allFF xs then (x + 1) # replicate (length xs) 0 else x # nextStr xs)"
    by (auto simp: nextStr_def allFF_def)
  finally show ?thesis .
qed

lemma zeros_least: "length ys = n \<Longrightarrow> replicate n (0 :: byte) \<le> ys"
proof (induction n arbitrary: ys)
  case 0
  then show ?case by simp
next
  case (Suc n)
  then obtain y ys' where ys: "ys = y # ys'" "length ys' = n"
    by (cases ys) auto
  with Suc.IH [of ys'] show ?case
    by (auto simp: word_gt_0)
qed

lemma byte_le_max: "(c :: byte) \<le> 0xFF"
proof -
  have "unat c \<le> 255" using unat_byte_less [of c] by simp
  then show ?thesis by (simp add: word_le_nat_alt)
qed

lemma allFF_greatest: "length ys = length xs \<Longrightarrow> allFF xs \<Longrightarrow> ys \<le> xs"
proof (induction ys xs rule: list_induct2)
  case Nil
  show ?case by simp
next
  case (Cons y ys x xs)
  from Cons.prems have x: "x = 0xFF" and "allFF xs"
    by (simp_all add: allFF_iff)
  with Cons.IH have "ys \<le> xs" by simp
  with x byte_le_max [of y] show ?case by auto
qed

lemma byte_succ_le: "(x :: byte) < y \<Longrightarrow> x + 1 \<le> y"
  by (rule inc_le)

text \<open>
  Among the strings of its length, \<open>nextStr s\<close> is the least one above \<open>s\<close>: a listing
  that starts at it misses no key of that length.
\<close>

lemma nextStr_least:
  "length a = length b \<Longrightarrow> a < b \<Longrightarrow> nextStr a \<le> b"
proof (induction a b rule: list_induct2)
  case Nil
  then show ?case by simp
next
  case (Cons x xs y ys)
  from Cons.prems consider (head) "x < y" | (tail) "x = y" "xs < ys"
    by auto
  then show ?case
  proof cases
    case head
    show ?thesis
    proof (cases "allFF xs")
      case True
      from head have "x + 1 \<le> y" by (rule byte_succ_le)
      moreover have "replicate (length xs) 0 \<le> ys"
        using Cons.hyps by (intro zeros_least) simp
      ultimately show ?thesis using True by (auto simp: nextStr_Cons)
    next
      case False
      with head show ?thesis by (simp add: nextStr_Cons)
    qed
  next
    case tail
    have "\<not> allFF xs"
    proof
      assume "allFF xs"
      with Cons.hyps have "ys \<le> xs" by (intro allFF_greatest) simp_all
      with tail(2) show False by simp
    qed
    with tail Cons.IH show ?thesis by (simp add: nextStr_Cons)
  qed
qed

text \<open>
  A longer string that starts with \<open>s\<close> lies between \<open>s\<close> and \<open>nextStr s\<close>: a
  listing that starts at \<open>nextStr s\<close> passes it over.
\<close>

lemma nextStr_skips_extension:
  "gostr ''AA'' < gostr ''AAA'' \<and> gostr ''AAA'' < nextStr (gostr ''AA'')"
  by (simp add: nextStr_def gostr_def)

text \<open>
  C1, as the specification states it, fails: on a string of 0xFF bytes \<open>nextStr\<close> does
  not return its input; every byte wraps around to 0.
\<close>

theorem nextStr_allFF_counterexample:
  "allFF [0xFF, 0xFF] \<and> nextStr [0xFF, 0xFF] = [0, 0] \<and> nextStr [0xFF, 0xFF] \<noteq> [0xFF, 0xFF]"
  by (simp add: allFF_def nextStr_def Let_def)

text \<open>
  C1, amended: for every string \<open>s\<close> of length L, \<open>nextStr s\<close> has length L; it is
  strictly greater than \<open>s\<close> in the lexicographic order unless \<open>s\<close> consists entirely
  of the byte 0xFF, and then it is the string of L zero bytes (which is \<open>s\<close> itself only
  when L = 0).
\<close>

theorem nextStr_successor:
  "length (nextStr s) = length s \<and>
   (if allFF s then nextStr s = replicate (length s) 0 else s < nextStr s)"
  by (simp add: nextStr_length nextStr_wraps nextStr_greater)

section \<open>Properties of EnumerateBlobs\<close>

lemma path_Split_append: "path_Split p = (d, f) \<Longrightarrow> p = d @ f"
  by (auto simp: path_Split_def Let_def)

lemma Key_in_namespace: "in_namespace sto obj \<Longrightarrow> Key obj = dirPrefix sto @ basename obj"
  by (metis in_namespace_def basename_def path_Split_append prod.collapse)

lemma append_less_cancel: "(p @ a < p @ (b :: gostring)) = (a < b)"
  by (induction p) simp_all

lemma append_le_cancel: "(p @ a \<le> p @ (b :: gostring)) = (a \<le> b)"
  by (induction p) simp_all

text \<open>One round of the loop, by the case the object falls in.\<close>

lemma enumerate_range_skip:
  "\<not> in_namespace sto obj \<or> basename obj = after \<Longrightarrow>
   enumerate_range Parse sto ctx after (obj # objs) n = enumerate_range Parse sto ctx after objs n"
  by (auto simp: in_namespace_def basename_def split: prod.splits)

lemma enumerate_range_foreign:
  "foreign Parse sto after obj \<Longrightarrow>
   enumerate_range Parse sto ctx after (obj # objs) n =
     ([], Some (nonPerkeep (basename obj) (bucket sto)))"
  by (auto simp: foreign_def in_namespace_def basename_def split: prod.splits)

lemma enumerate_range_cancelled:
  "in_namespace sto obj \<Longrightarrow> basename obj \<noteq> after \<Longrightarrow> Parse (basename obj) = Some br \<Longrightarrow>
   \<not> send_accepted ctx n \<Longrightarrow>
   enumerate_range Parse sto ctx after (obj # objs) n = ([], Some (ContextError (Err ctx)))"
  by (auto simp: in_namespace_def basename_def split: prod.splits)

lemma enumerate_range_send:
  "in_namespace sto obj \<Longrightarrow> basename obj \<noteq> after \<Longrightarrow> Parse (basename obj) = Some br \<Longrightarrow>
   send_accepted ctx n \<Longrightarrow>
   enumerate_range Parse sto ctx after (obj # objs) n =
     (Send (toSizedRef Parse obj) # fst (enumerate_range Parse sto ctx after objs (Suc n)),
      snd (enumerate_range Parse sto ctx after objs (Suc n)))"
  by (auto simp: in_namespace_def basename_def toSizedRef_def split: prod.splits)

lemma enumerate_range_cases:
  obtains (skip) "\<not> in_namespace sto obj \<or> basename obj = after"
  | (foreign) "foreign Parse sto after obj"
  | (cancelled) br where "in_namespace sto obj" "basename obj \<noteq> after"
      "Parse (basename obj) = Some br" "\<not> send_accepted ctx n"
  | (send) br where "in_namespace sto obj" "basename obj \<noteq> after"
      "Parse (basename obj) = Some br" "send_accepted ctx n"
  by (cases "Parse (basename obj)") (auto simp: foreign_def)

declare enumerate_range.simps(2) [simp del]

text \<open>The loop sends values only.\<close>

lemma enumerate_range_only_sends:
  "fst (enumerate_range Parse sto ctx after objs n) = map Send (sent (fst (enumerate_range Parse sto ctx after objs n)))"
proof (induction objs arbitrary: n)
  case Nil
  then show ?case by simp
next
  case (Cons obj objs)
  show ?case
  proof (cases rule: enumerate_range_cases [where sto = sto and obj = obj and after = after and Parse = Parse and ctx = ctx and n = n])
    case skip
    show ?thesis using Cons.IH [of n] by (simp add: enumerate_range_skip [OF skip])
  next
    case foreign
    show ?thesis by (simp add: enumerate_range_foreign [OF foreign])
  next
    case (cancelled br)
    show ?thesis by (simp add: enumerate_range_cancelled [where Parse = Parse, OF cancelled])
  next
    case (send br)
    show ?thesis using Cons.IH [of "Suc n"] by (simp add: enumerate_range_send [where Parse = Parse, OF send])
  qed
qed

text \<open>
  When the loop runs to the end, it has sent every object of the namespace but
  \<open>after\<close>, and each of them is an identifier.
\<close>

lemma enumerate_range_success:
  assumes "snd (enumerate_range Parse sto ctx after objs n) = None"
  shows "sent (fst (enumerate_range Parse sto ctx after objs n)) =
           map (toSizedRef Parse) (filter (\<lambda>obj. in_namespace sto obj \<and> basename obj \<noteq> after) objs)
         \<and> (\<forall>obj\<in>set objs. \<not> foreign Parse sto after obj)"
  using assms
proof (induction objs arbitrary: n)
  case Nil
  then show ?case by simp
next
  case (Cons obj objs)
  show ?case
  proof (cases rule: enumerate_range_cases [where sto = sto and obj = obj and after = after and Parse = Parse and ctx = ctx and n = n])
    case skip
    then have nf: "\<not> foreign Parse sto after obj" by (auto simp: foreign_def)
    from skip nf show ?thesis using Cons.IH [of n] Cons.prems
      by (auto simp: enumerate_range_skip [OF skip])
  next
    case foreign
    show ?thesis using Cons.prems by (simp add: enumerate_range_foreign [OF foreign])
  next
    case (cancelled br)
    show ?thesis using Cons.prems by (simp add: enumerate_range_cancelled [where Parse = Parse, OF cancelled])
  next
    case (send br)
    then have nf: "\<not> foreign Parse sto after obj" by (auto simp: foreign_def)
    from send nf show ?thesis using Cons.IH [of "Suc n"] Cons.prems
      by (auto simp: enumerate_range_send [where Parse = Parse, OF send])
  qed
qed


lemma startAt_of_ge:
  assumes "Parse after \<noteq> None \<longrightarrow> after = [] \<or> \<not> allFF after"
  shows "after \<le> startAt_of Parse after"
proof (cases "Parse after")
  case None
  then show ?thesis by (simp add: startAt_of_def)
next
  case (Some r)
  with assms have "after = [] \<or> \<not> allFF after" by simp
  then have "after \<le> nextStr after" by (rule nextStr_not_less)
  with Some show ?thesis by (simp add: startAt_of_def)
qed

lemma closes_body:
  "closes (fst (EnumerateBlobs_body Parse ListBucket FailErr sto ctx after limit)) = 0"
proof -
  have "closes (map Send xs) = 0" for xs :: "'a SizedRef list"
    by (induction xs) (simp_all add: closes_def)
  then have r: "closes (fst (enumerate_range Parse sto ctx after objs 0)) = 0" for objs
    by (metis enumerate_range_only_sends)
  show ?thesis
  proof (cases FailErr)
    case (Some msg)
    then show ?thesis by (simp add: EnumerateBlobs_body_def closes_def)
  next
    case None
    show ?thesis
    proof (cases "ListBucket (bucket sto) (dirPrefix sto @ startAt_of Parse after) limit")
      case (Inl msg)
      with None show ?thesis by (simp add: EnumerateBlobs_body_def closes_def)
    next
      case (Inr objs)
      have "closes (c # evs) = closes evs" if "c \<noteq> Close" for c :: "'a event" and evs
        using that by (simp add: closes_def)
      then have "closes (ListBucket_call (bucket sto) (dirPrefix sto @ startAt_of Parse after) limit
          # fst (enumerate_range Parse sto ctx after objs 0)) = 0"
        using r [of objs] by simp
      with None Inr show ?thesis
        by (simp add: EnumerateBlobs_body_def case_prod_beta)
    qed
  qed
qed

lemma EnumerateBlobs_listed:
  assumes "ListBucket (bucket sto) (dirPrefix sto @ startAt_of Parse after) limit = Inr objs"
  shows "sent (fst (EnumerateBlobs Parse ListBucket None sto ctx after limit)) =
           sent (fst (enumerate_range Parse sto ctx after objs 0))"
    and "snd (EnumerateBlobs Parse ListBucket None sto ctx after limit) =
           snd (enumerate_range Parse sto ctx after objs 0)"
proof -
  have s: "sent (evs @ [Close]) = sent evs" for evs :: "'a event list"
    by (induction evs rule: sent.induct) simp_all
  show "sent (fst (EnumerateBlobs Parse ListBucket None sto ctx after limit)) =
           sent (fst (enumerate_range Parse sto ctx after objs 0))"
    using assms by (simp add: EnumerateBlobs_def EnumerateBlobs_body_def Let_def s case_prod_beta)
  show "snd (EnumerateBlobs Parse ListBucket None sto ctx after limit) =
           snd (enumerate_range Parse sto ctx after objs 0)"
    using assms by (simp add: EnumerateBlobs_def EnumerateBlobs_body_def Let_def case_prod_beta)
qed


lemma enumerate_range_prefix:
  "prefix (sent (fst (enumerate_range Parse sto ctx after objs n)))
     (map (toSizedRef Parse)
        (filter (\<lambda>obj. in_namespace sto obj \<and> basename obj \<noteq> after \<and> Parse (basename obj) \<noteq> None) objs))"
proof (induction objs arbitrary: n)
  case Nil
  then show ?case by simp
next
  case (Cons obj objs)
  show ?case
  proof (cases rule: enumerate_range_cases [where sto = sto and obj = obj and after = after and Parse = Parse and ctx = ctx and n = n])
    case skip
    then show ?thesis using Cons.IH [of n]
      by (auto simp: enumerate_range_skip [OF skip])
  next
    case foreign
    show ?thesis by (simp add: enumerate_range_foreign [OF foreign])
  next
    case (cancelled br)
    show ?thesis by (simp add: enumerate_range_cancelled [where Parse = Parse, OF cancelled])
  next
    case (send br)
    then show ?thesis using Cons.IH [of "Suc n"]
      by (simp add: enumerate_range_send [where Parse = Parse, OF send])
  qed
qed

text \<open>A run over a listing without a foreign object, with a consumer that takes every value, returns no error.\<close>

lemma enumerate_range_clean:
  assumes "\<forall>obj\<in>set objs. \<not> foreign Parse sto after obj"
    and "\<forall>j < length (filter (\<lambda>obj. in_namespace sto obj \<and> basename obj \<noteq> after) objs).
           send_accepted ctx (n + j)"
  shows "snd (enumerate_range Parse sto ctx after objs n) = None"
  using assms
proof (induction objs arbitrary: n)
  case Nil
  show ?case by simp
next
  case (Cons obj objs)
  from Cons.prems(1) have nf: "\<not> foreign Parse sto after obj"
    and rest: "\<forall>x\<in>set objs. \<not> foreign Parse sto after x"
    by simp_all
  show ?case
  proof (cases rule: enumerate_range_cases [where sto = sto and obj = obj and after = after and Parse = Parse and ctx = ctx and n = n])
    case skip
    with Cons.prems(2)
    have "\<forall>j < length (filter (\<lambda>obj. in_namespace sto obj \<and> basename obj \<noteq> after) objs).
        send_accepted ctx (n + j)"
      by auto
    from Cons.IH [OF rest this] show ?thesis
      by (simp add: enumerate_range_skip [OF skip])
  next
    case foreign
    with nf show ?thesis by simp
  next
    case (cancelled br)
    then have "0 < length (filter (\<lambda>obj. in_namespace sto obj \<and> basename obj \<noteq> after) (obj # objs))"
      by simp
    with Cons.prems(2) have "send_accepted ctx (n + 0)" by blast
    with cancelled(4) show ?thesis by simp
  next
    case (send br)
    have "\<forall>j < length (filter (\<lambda>obj. in_namespace sto obj \<and> basename obj \<noteq> after) objs).
        send_accepted ctx (Suc n + j)"
    proof (intro allI impI)
      fix j
      assume "j < length (filter (\<lambda>obj. in_namespace sto obj \<and> basename obj \<noteq> after) objs)"
      with send(1,2) have "Suc j < length (filter (\<lambda>obj. in_namespace sto obj \<and> basename obj \<noteq> after) (obj # objs))"
        by simp
      with Cons.prems(2) have "send_accepted ctx (n + Suc j)" by blast
      then show "send_accepted ctx (Suc n + j)" by simp
    qed
    from Cons.IH [OF rest this] show ?thesis
      by (simp add: enumerate_range_send [where Parse = Parse, OF send])
  qed
qed

text \<open>
  On an object that the listing may return (its key is not below the start key), being
  selected is being an identifier of the namespace other than \<open>after\<close>.
\<close>

lemma selected_iff:
  assumes lower: "dirPrefix sto @ startAt_of Parse after \<le> Key obj"
    and ff: "Parse after \<noteq> None \<longrightarrow> after = [] \<or> \<not> allFF after"
  shows "selected Parse sto after obj \<longleftrightarrow>
      in_namespace sto obj \<and> basename obj \<noteq> after \<and> Parse (basename obj) \<noteq> None"
proof (cases "in_namespace sto obj")
  case False
  then show ?thesis by (simp add: selected_def)
next
  case True
  then have "Key obj = dirPrefix sto @ basename obj" by (rule Key_in_namespace)
  with lower have "startAt_of Parse after \<le> basename obj"
    by (metis append_le_cancel)
  with startAt_of_ge [where Parse = Parse, OF ff] have "after \<le> basename obj" by simp
  with True show ?thesis by (auto simp: selected_def)
qed

text \<open>What a call sends of a page, and when it returns no error.\<close>

lemma EnumerateBlobs_on_page:
  assumes page: "ListBucket (bucket sto) (dirPrefix sto @ startAt_of Parse after) limit = Inr objs"
    and lower: "\<forall>obj\<in>set objs. dirPrefix sto @ startAt_of Parse after \<le> Key obj"
    and ff: "Parse after \<noteq> None \<longrightarrow> after = [] \<or> \<not> allFF after"
  shows "prefix (sent (fst (EnumerateBlobs Parse ListBucket None sto ctx after limit)))
           (map (toSizedRef Parse) (filter (selected Parse sto after) objs))"
    and "snd (EnumerateBlobs Parse ListBucket None sto ctx after limit) = None \<Longrightarrow>
            sent (fst (EnumerateBlobs Parse ListBucket None sto ctx after limit)) =
              map (toSizedRef Parse) (filter (selected Parse sto after) objs)"
    and "(\<forall>obj\<in>set objs. \<not> foreign Parse sto after obj) \<Longrightarrow>
         (\<forall>j < length (filter (selected Parse sto after) objs). send_accepted ctx j) \<Longrightarrow>
         snd (EnumerateBlobs Parse ListBucket None sto ctx after limit) = None"
proof -
  let ?R = "enumerate_range Parse sto ctx after objs 0"
  let ?E = "EnumerateBlobs Parse ListBucket None sto ctx after limit"
  let ?sel = "filter (selected Parse sto after) objs"
  have sel: "selected Parse sto after obj \<longleftrightarrow>
      in_namespace sto obj \<and> basename obj \<noteq> after \<and> Parse (basename obj) \<noteq> None"
    if "obj \<in> set objs" for obj
    using that lower by (intro selected_iff [where Parse = Parse, OF _ ff]) simp
  have f: "?sel =
      filter (\<lambda>obj. in_namespace sto obj \<and> basename obj \<noteq> after \<and> Parse (basename obj) \<noteq> None) objs"
    by (rule filter_cong) (simp_all add: sel)
  have sent_E: "sent (fst ?E) = sent (fst ?R)" and err_E: "snd ?E = snd ?R"
    by (simp_all add: EnumerateBlobs_listed [where ListBucket = ListBucket and Parse = Parse, OF page])
  show "prefix (sent (fst ?E)) (map (toSizedRef Parse) ?sel)"
    unfolding sent_E f by (rule enumerate_range_prefix)
  have clean: "filter (\<lambda>obj. in_namespace sto obj \<and> basename obj \<noteq> after) objs = ?sel"
    if nf: "\<forall>obj\<in>set objs. \<not> foreign Parse sto after obj"
    unfolding f using nf by (intro filter_cong) (auto simp: foreign_def)
  show "sent (fst ?E) = map (toSizedRef Parse) ?sel" if ok: "snd ?E = None"
  proof -
    from ok have ok': "snd ?R = None" by (simp add: err_E)
    from enumerate_range_success [OF ok']
    have s: "sent (fst ?R) =
        map (toSizedRef Parse) (filter (\<lambda>obj. in_namespace sto obj \<and> basename obj \<noteq> after) objs)"
      and nf: "\<forall>obj\<in>set objs. \<not> foreign Parse sto after obj"
      by simp_all
    from s clean [OF nf] show ?thesis by (simp add: sent_E)
  qed
  show "snd ?E = None"
    if nf: "\<forall>obj\<in>set objs. \<not> foreign Parse sto after obj"
      and acc: "\<forall>j < length ?sel. send_accepted ctx j"
  proof -
    from acc have "\<forall>j < length (filter (\<lambda>obj. in_namespace sto obj \<and> basename obj \<noteq> after) objs).
        send_accepted ctx (0 + j)"
      by (simp add: clean [OF nf])
    from enumerate_range_clean [OF nf this] show ?thesis by (simp add: err_E)
  qed
qed

text \<open>The selected objects of a listing in key order come in ascending order of their identifiers.\<close>

lemma selected_ascending:
  assumes asc: "sorted_wrt (<) (map Key objs)"
    and rt: "\<forall>s r. Parse s = Some r \<longrightarrow> String r = s"
  shows "sorted_wrt (<) (map (\<lambda>sr. String (Ref sr))
           (map (toSizedRef Parse) (filter (selected Parse sto after) objs)))"
proof -
  let ?sel = "filter (selected Parse sto after) objs"
  have str: "String (Ref (toSizedRef Parse obj)) = basename obj" if "selected Parse sto after obj" for obj
    using that rt by (auto simp: selected_def toSizedRef_def)
  have "sorted_wrt (\<lambda>a b. Key a < Key b) objs"
    using asc by (simp add: sorted_wrt_map)
  then have "sorted_wrt (\<lambda>a b. Key a < Key b) ?sel"
    by (rule sorted_wrt_filter)
  then have "sorted_wrt (\<lambda>a b. basename a < basename b) ?sel"
  proof (rule sorted_wrt_mono_rel [rotated])
    fix a b
    assume "a \<in> set ?sel" and "b \<in> set ?sel" and "Key a < Key b"
    then have "in_namespace sto a" and "in_namespace sto b" and "Key a < Key b"
      by (simp_all add: selected_def)
    then show "basename a < basename b"
      by (metis Key_in_namespace append_less_cancel)
  qed
  then have "sorted_wrt (<) (map basename ?sel)"
    by (simp add: sorted_wrt_map)
  moreover have "map (\<lambda>sr. String (Ref sr)) (map (toSizedRef Parse) ?sel) = map basename ?sel"
    by (simp add: str)
  ultimately show ?thesis by (simp only:)
qed

text \<open>
  A selected object is at or above the start key when no identifier of the namespace
  lies between \<open>after\<close> and \<open>nextStr after\<close>; identifiers of the length of \<open>after\<close> do
  not (\<open>nextStr_least\<close>).
\<close>

lemma selected_listed:
  assumes gap: "Parse after \<noteq> None \<longrightarrow> nextStr after \<le> basename obj"
    and sel: "selected Parse sto after obj"
  shows "dirPrefix sto @ startAt_of Parse after \<le> Key obj"
proof -
  from sel have ns: "in_namespace sto obj" and gt: "after < basename obj"
    by (simp_all add: selected_def)
  have "startAt_of Parse after \<le> basename obj"
  proof (cases "Parse after")
    case None
    with gt show ?thesis by (simp add: startAt_of_def)
  next
    case (Some r)
    with gap show ?thesis by (simp add: startAt_of_def)
  qed
  then show ?thesis
    by (simp add: Key_in_namespace [OF ns] append_le_cancel)
qed

lemma same_length_gap:
  "length (basename obj) = length after \<Longrightarrow> selected Parse sto after obj \<Longrightarrow>
   nextStr after \<le> basename obj"
  by (simp add: selected_def nextStr_least)

lemma prefix_filter_take: "prefix (filter P (take n xs)) (filter P xs)"
proof -
  have "filter P xs = filter P (take n xs) @ filter P (drop n xs)"
    by (metis append_take_drop_id filter_append)
  then show ?thesis by (metis prefixI)
qed

text \<open>The scenario, evaluated.\<close>

lemma ex_path_Split:
  "path_Split (gostr ''p/AAA'') = (gostr ''p/'', gostr ''AAA'')"
  "path_Split (gostr ''p/AAB'') = (gostr ''p/'', gostr ''AAB'')"
  "path_Split (gostr ''q/AAA'') = (gostr ''q/'', gostr ''AAA'')"
  "path_Split (gostr ''p/README'') = (gostr ''p/'', gostr ''README'')"
  "path_Split (gostr ''p/ZZZ'') = (gostr ''p/'', gostr ''ZZZ'')"
  "path_Split (gostr ''p/AA'') = (gostr ''p/'', gostr ''AA'')"
  by (simp_all add: path_Split_def LastIndexByte_def gostr_def)

lemma ex_startAt_of_empty: "startAt_of ex_Parse [] = []"
  by (simp add: startAt_of_def ex_Parse_def)

lemma ex_startAt_of_AAA: "startAt_of ex_Parse (gostr ''AAA'') = gostr ''AAB''"
  by (simp add: startAt_of_def ex_Parse_def nextStr_def gostr_def)

text \<open>
  C2, as the specification states it, fails, in three ways. Each bucket below is in the
  order of its keys. In the first, \<open>p/AAA\<close> and \<open>p/ZZZ\<close> are identifiers of the
  namespace greater than the empty \<open>after\<close>, and the enumeration sends \<open>AAA\<close> only: it
  stops with an error at \<open>p/README\<close>, which is not an identifier. In the second, the
  identifier \<open>AAA\<close> of the namespace is greater than \<open>after = AA\<close>, and the enumeration
  sends nothing and returns no error: the listing starts at \<open>p/AB\<close>. In the third, with
  the limit 1, the enumeration from the empty \<open>after\<close> sends \<open>AAA\<close> and not \<open>AAB\<close>.
\<close>

theorem EnumerateBlobs_emits_counterexample:
  "sorted_wrt (<) (map Key ex_foreign_contents) \<and>
   map (toSizedRef ex_Parse) (filter (selected ex_Parse ex_sto []) ex_foreign_contents)
     = [SizedRef (gostr ''AAA'') 10, SizedRef (gostr ''ZZZ'') 20] \<and>
   sent (fst (EnumerateBlobs ex_Parse (ListBucket_of ex_foreign_contents) None ex_sto ex_ctx [] 1000))
     = [SizedRef (gostr ''AAA'') 10] \<and>
   sorted_wrt (<) (map Key ex_nested_contents) \<and>
   map (toSizedRef ex_Parse_caps) (filter (selected ex_Parse_caps ex_sto (gostr ''AA'')) ex_nested_contents)
     = [SizedRef (gostr ''AAA'') 10] \<and>
   EnumerateBlobs ex_Parse_caps (ListBucket_of ex_nested_contents) None ex_sto ex_ctx (gostr ''AA'') 1000
     = ([ListBucket_call (gostr ''bkt'') (gostr ''p/AB'') 1000, Close], None) \<and>
   sorted_wrt (<) (map Key ex_contents) \<and>
   map (toSizedRef ex_Parse) (filter (selected ex_Parse ex_sto []) ex_contents)
     = [SizedRef (gostr ''AAA'') 10, SizedRef (gostr ''AAB'') 20] \<and>
   EnumerateBlobs ex_Parse (ListBucket_of ex_contents) None ex_sto ex_ctx [] 1
     = ([ListBucket_call (gostr ''bkt'') (gostr ''p/'') 1, Send (SizedRef (gostr ''AAA'') 10), Close], None)"
proof -
  have "sorted_wrt (<) (map Key ex_foreign_contents)"
    by (simp add: ex_foreign_contents_def gostr_def)
  moreover have "map (toSizedRef ex_Parse) (filter (selected ex_Parse ex_sto []) ex_foreign_contents)
      = [SizedRef (gostr ''AAA'') 10, SizedRef (gostr ''ZZZ'') 20]"
    by (simp add: selected_def in_namespace_def basename_def toSizedRef_def ex_path_Split ex_sto_def
          ex_foreign_contents_def)
       (simp add: ex_Parse_def gostr_def)
  moreover have "sent (fst (EnumerateBlobs ex_Parse (ListBucket_of ex_foreign_contents) None ex_sto
      ex_ctx [] 1000)) = [SizedRef (gostr ''AAA'') 10]"
    by code_simp
  moreover have "sorted_wrt (<) (map Key ex_nested_contents)"
    by (simp add: ex_nested_contents_def gostr_def)
  moreover have "map (toSizedRef ex_Parse_caps)
      (filter (selected ex_Parse_caps ex_sto (gostr ''AA'')) ex_nested_contents)
      = [SizedRef (gostr ''AAA'') 10]"
    by (simp add: selected_def in_namespace_def basename_def toSizedRef_def ex_path_Split ex_sto_def
          ex_nested_contents_def)
       (simp add: ex_Parse_caps_def gostr_def)
  moreover have "EnumerateBlobs ex_Parse_caps (ListBucket_of ex_nested_contents) None ex_sto ex_ctx
      (gostr ''AA'') 1000 = ([ListBucket_call (gostr ''bkt'') (gostr ''p/AB'') 1000, Close], None)"
    by code_simp
  moreover have "sorted_wrt (<) (map Key ex_contents)"
    by (simp add: ex_contents_def gostr_def)
  moreover have "map (toSizedRef ex_Parse) (filter (selected ex_Parse ex_sto []) ex_contents)
      = [SizedRef (gostr ''AAA'') 10, SizedRef (gostr ''AAB'') 20]"
    by (simp add: selected_def in_namespace_def basename_def toSizedRef_def ex_path_Split ex_sto_def
          ex_contents_def)
       (simp add: ex_Parse_def gostr_def)
  moreover have "EnumerateBlobs ex_Parse (ListBucket_of ex_contents) None ex_sto ex_ctx [] 1
      = ([ListBucket_call (gostr ''bkt'') (gostr ''p/'') 1, Send (SizedRef (gostr ''AAA'') 10), Close], None)"
    by code_simp
  ultimately show ?thesis by (intro conjI)
qed

text \<open>
  C2, amended: let the bucket hold \<open>contents\<close>, strictly ascending by key, let the client
  answer the request of the call as the listing of the specification does (the first
  \<open>limit\<close> objects from the start key, which is the namespace prefix followed by
  \<open>startAt\<close>), let \<open>after\<close>, when it is an identifier, not be a non-empty run of 0xFF
  bytes and let no identifier of the namespace lie between it and \<open>nextStr after\<close> (as
  when the identifiers have the length of \<open>after\<close>), and let an identifier print back as
  the basename it was parsed from. Then

  \<^item> what \<open>EnumerateBlobs\<close> sends is, whatever the outcome, an initial segment of the
    bucket's selected objects (directory equal to the namespace prefix, basename a valid
    identifier strictly greater than \<open>after\<close>), in the order of the bucket: an object
    outside the namespace and the object named \<open>after\<close> are never sent;
  \<^item> when the call returns no error, it has sent exactly the selected objects of the page;
  \<^item> the call returns no error when no object of the namespace on the page fails to
    parse (\<open>after\<close> apart) and the consumer takes every value;
  \<^item> the selected objects of the page are those of the bucket when the page is not cut
    short by the limit;
  \<^item> the selected objects are strictly ascending in the identifiers' canonical string
    form.
\<close>

theorem EnumerateBlobs_emits:
  assumes page: "ListBucket (bucket sto) (dirPrefix sto @ startAt_of Parse after) limit =
        Inr (page_of contents (dirPrefix sto @ startAt_of Parse after) limit)"
    and asc: "sorted_wrt (<) (map Key contents)"
    and ff: "Parse after \<noteq> None \<longrightarrow> after = [] \<or> \<not> allFF after"
    and gap: "Parse after \<noteq> None \<longrightarrow>
        (\<forall>obj\<in>set contents. selected Parse sto after obj \<longrightarrow> nextStr after \<le> basename obj)"
    and rt: "\<forall>s r. Parse s = Some r \<longrightarrow> String r = s"
  shows "prefix (sent (fst (EnumerateBlobs Parse ListBucket None sto ctx after limit)))
           (map (toSizedRef Parse) (filter (selected Parse sto after) contents)) \<and>
         (snd (EnumerateBlobs Parse ListBucket None sto ctx after limit) = None \<longrightarrow>
            sent (fst (EnumerateBlobs Parse ListBucket None sto ctx after limit)) =
              map (toSizedRef Parse) (filter (selected Parse sto after)
                (page_of contents (dirPrefix sto @ startAt_of Parse after) limit))) \<and>
         ((\<forall>obj\<in>set (page_of contents (dirPrefix sto @ startAt_of Parse after) limit).
              \<not> foreign Parse sto after obj) \<and>
          (\<forall>j < length (filter (selected Parse sto after)
                (page_of contents (dirPrefix sto @ startAt_of Parse after) limit)).
              send_accepted ctx j) \<longrightarrow>
            snd (EnumerateBlobs Parse ListBucket None sto ctx after limit) = None) \<and>
         (length (filter (\<lambda>obj. dirPrefix sto @ startAt_of Parse after \<le> Key obj) contents) \<le> nat limit \<longrightarrow>
            filter (selected Parse sto after)
              (page_of contents (dirPrefix sto @ startAt_of Parse after) limit) =
            filter (selected Parse sto after) contents) \<and>
         sorted_wrt (<) (map (\<lambda>sr. String (Ref sr))
           (map (toSizedRef Parse) (filter (selected Parse sto after) contents)))"
proof -
  let ?start = "dirPrefix sto @ startAt_of Parse after"
  let ?tail = "filter (\<lambda>obj. ?start \<le> Key obj) contents"
  let ?page = "page_of contents ?start limit"
  let ?E = "EnumerateBlobs Parse ListBucket None sto ctx after limit"
  have page_take: "?page = take (nat limit) ?tail"
    by (simp add: page_of_def)
  have lower: "\<forall>obj\<in>set ?page. ?start \<le> Key obj"
  proof
    fix obj
    assume "obj \<in> set ?page"
    then have "obj \<in> set ?tail" unfolding page_take by (rule in_set_takeD)
    then show "?start \<le> Key obj" by simp
  qed
  have listed: "?start \<le> Key obj" if "obj \<in> set contents" "selected Parse sto after obj" for obj
    using that gap by (intro selected_listed [where Parse = Parse]) auto
  have tail_sel: "filter (selected Parse sto after) ?tail = filter (selected Parse sto after) contents"
    unfolding filter_filter by (rule filter_cong) (auto simp: listed)
  have "prefix (filter (selected Parse sto after) ?page) (filter (selected Parse sto after) ?tail)"
    unfolding page_take by (rule prefix_filter_take)
  then have "prefix (map (toSizedRef Parse) (filter (selected Parse sto after) ?page))
      (map (toSizedRef Parse) (filter (selected Parse sto after) contents))"
    unfolding tail_sel by (rule map_mono_prefix)
  with EnumerateBlobs_on_page(1) [where ListBucket = ListBucket and Parse = Parse, OF page lower ff]
  have A: "prefix (sent (fst ?E)) (map (toSizedRef Parse) (filter (selected Parse sto after) contents))"
    by (rule prefix_order.trans)
  have B: "snd ?E = None \<longrightarrow>
      sent (fst ?E) = map (toSizedRef Parse) (filter (selected Parse sto after) ?page)"
    using EnumerateBlobs_on_page(2) [where ListBucket = ListBucket and Parse = Parse, OF page lower ff]
    by blast
  have C: "(\<forall>obj\<in>set ?page. \<not> foreign Parse sto after obj) \<and>
      (\<forall>j < length (filter (selected Parse sto after) ?page). send_accepted ctx j) \<longrightarrow>
      snd ?E = None"
    using EnumerateBlobs_on_page(3) [where ListBucket = ListBucket and Parse = Parse, OF page lower ff]
    by blast
  have D: "length ?tail \<le> nat limit \<longrightarrow>
      filter (selected Parse sto after) ?page = filter (selected Parse sto after) contents"
    unfolding page_take using tail_sel by simp
  have E: "sorted_wrt (<) (map (\<lambda>sr. String (Ref sr))
      (map (toSizedRef Parse) (filter (selected Parse sto after) contents)))"
    using asc rt by (rule selected_ascending)
  from A B C D E show ?thesis by (intro conjI)
qed

text \<open>
  The scenario of the specification: with \<open>after = AAA\<close> the enumeration returns no
  error and yields \<open>AAB\<close> and not \<open>AAA\<close>, with the empty \<open>after\<close> it yields both in
  order, and \<open>q/AAA\<close> is never sent.
\<close>

theorem EnumerateBlobs_emits_witness:
  "snd (EnumerateBlobs ex_Parse (ListBucket_of ex_contents) None ex_sto ex_ctx (gostr ''AAA'') 1000) = None \<and>
   sent (fst (EnumerateBlobs ex_Parse (ListBucket_of ex_contents) None ex_sto ex_ctx (gostr ''AAA'') 1000))
     = [SizedRef (gostr ''AAB'') 20] \<and>
   snd (EnumerateBlobs ex_Parse (ListBucket_of ex_contents) None ex_sto ex_ctx [] 1000) = None \<and>
   sent (fst (EnumerateBlobs ex_Parse (ListBucket_of ex_contents) None ex_sto ex_ctx [] 1000))
     = [SizedRef (gostr ''AAA'') 10, SizedRef (gostr ''AAB'') 20]"
proof -
  let ?LB = "ListBucket_of ex_contents"
  have rt: "\<forall>s r. ex_Parse s = Some r \<longrightarrow> (\<lambda>r. r) r = s"
    by (simp add: ex_Parse_def)
  have asc: "sorted_wrt (<) (map Key ex_contents)"
    by (simp add: ex_contents_def gostr_def)
  have page: "?LB (bucket ex_sto) (dirPrefix ex_sto @ startAt_of ex_Parse a) 1000 =
      Inr (page_of ex_contents (dirPrefix ex_sto @ startAt_of ex_Parse a) 1000)" for a
    by (simp add: ListBucket_of_def)
  have accept: "send_accepted ex_ctx j" for j
    by (simp add: send_accepted_def ex_ctx_def)
  have page1: "page_of ex_contents (dirPrefix ex_sto @ startAt_of ex_Parse (gostr ''AAA'')) 1000 =
      [\<lparr>Key = gostr ''p/AAB'', Size = 20\<rparr>, \<lparr>Key = gostr ''q/AAA'', Size = 30\<rparr>]"
    unfolding ex_startAt_of_AAA by (simp add: page_of_def ex_contents_def ex_sto_def gostr_def)
  have page2: "page_of ex_contents (dirPrefix ex_sto @ startAt_of ex_Parse []) 1000 = ex_contents"
    unfolding ex_startAt_of_empty by (simp add: page_of_def ex_contents_def ex_sto_def gostr_def)
  have ff1: "ex_Parse (gostr ''AAA'') \<noteq> None \<longrightarrow> gostr ''AAA'' = [] \<or> \<not> allFF (gostr ''AAA'')"
    by (simp add: allFF_def gostr_def)
  have ff2: "ex_Parse [] \<noteq> None \<longrightarrow> [] = [] \<or> \<not> allFF []"
    by simp
  have sel1: "filter (selected ex_Parse ex_sto (gostr ''AAA'')) ex_contents =
      [\<lparr>Key = gostr ''p/AAB'', Size = 20\<rparr>]"
    by (simp add: selected_def in_namespace_def basename_def ex_path_Split ex_sto_def ex_contents_def)
       (simp add: ex_Parse_def gostr_def)
  have sel1p: "filter (selected ex_Parse ex_sto (gostr ''AAA''))
      [\<lparr>Key = gostr ''p/AAB'', Size = 20\<rparr>, \<lparr>Key = gostr ''q/AAA'', Size = 30\<rparr>] =
      [\<lparr>Key = gostr ''p/AAB'', Size = 20\<rparr>]"
    by (simp add: selected_def in_namespace_def basename_def ex_path_Split ex_sto_def)
       (simp add: ex_Parse_def gostr_def)
  have sel2: "filter (selected ex_Parse ex_sto []) ex_contents =
      [\<lparr>Key = gostr ''p/AAA'', Size = 10\<rparr>, \<lparr>Key = gostr ''p/AAB'', Size = 20\<rparr>]"
    by (simp add: selected_def in_namespace_def basename_def ex_path_Split ex_sto_def ex_contents_def)
       (simp add: ex_Parse_def gostr_def)
  have gap1: "ex_Parse (gostr ''AAA'') \<noteq> None \<longrightarrow>
      (\<forall>obj\<in>set ex_contents. selected ex_Parse ex_sto (gostr ''AAA'') obj \<longrightarrow>
         nextStr (gostr ''AAA'') \<le> basename obj)"
  proof (intro impI ballI)
    fix obj
    assume "obj \<in> set ex_contents" and "selected ex_Parse ex_sto (gostr ''AAA'') obj"
    then have "obj \<in> set (filter (selected ex_Parse ex_sto (gostr ''AAA'')) ex_contents)" by simp
    then have "obj = \<lparr>Key = gostr ''p/AAB'', Size = 20\<rparr>" unfolding sel1 by simp
    then show "nextStr (gostr ''AAA'') \<le> basename obj"
      by (simp add: basename_def ex_path_Split) (simp add: nextStr_def gostr_def)
  qed
  have gap2: "ex_Parse [] \<noteq> None \<longrightarrow>
      (\<forall>obj\<in>set ex_contents. selected ex_Parse ex_sto [] obj \<longrightarrow> nextStr [] \<le> basename obj)"
    by (simp add: ex_Parse_def)
  have clean1: "\<forall>obj\<in>set [\<lparr>Key = gostr ''p/AAB'', Size = 20\<rparr>, \<lparr>Key = gostr ''q/AAA'', Size = 30\<rparr>].
      \<not> foreign ex_Parse ex_sto (gostr ''AAA'') obj"
    by (simp add: foreign_def in_namespace_def basename_def ex_path_Split ex_sto_def)
       (simp add: ex_Parse_def gostr_def)
  have clean2: "\<forall>obj\<in>set ex_contents. \<not> foreign ex_Parse ex_sto [] obj"
    by (simp add: foreign_def in_namespace_def basename_def ex_path_Split ex_sto_def ex_contents_def)
       (simp add: ex_Parse_def gostr_def)
  have to1: "map (toSizedRef ex_Parse) [\<lparr>Key = gostr ''p/AAB'', Size = 20\<rparr>] = [SizedRef (gostr ''AAB'') 20]"
    by (simp add: toSizedRef_def basename_def ex_path_Split) (simp add: ex_Parse_def gostr_def)
  have to2: "map (toSizedRef ex_Parse)
      [\<lparr>Key = gostr ''p/AAA'', Size = 10\<rparr>, \<lparr>Key = gostr ''p/AAB'', Size = 20\<rparr>] =
      [SizedRef (gostr ''AAA'') 10, SizedRef (gostr ''AAB'') 20]"
    by (simp add: toSizedRef_def basename_def ex_path_Split) (simp add: ex_Parse_def gostr_def)
  note t1 = EnumerateBlobs_emits [where ListBucket = ?LB and Parse = ex_Parse and String = "\<lambda>r. r"
      and ctx = ex_ctx and contents = ex_contents and after = "gostr ''AAA''" and limit = 1000
      and sto = ex_sto, OF page asc ff1 gap1 rt]
  note t2 = EnumerateBlobs_emits [where ListBucket = ?LB and Parse = ex_Parse and String = "\<lambda>r. r"
      and ctx = ex_ctx and contents = ex_contents and after = "[]" and limit = 1000
      and sto = ex_sto, OF page asc ff2 gap2 rt]
  from t1 clean1 accept
  have e1: "snd (EnumerateBlobs ex_Parse ?LB None ex_sto ex_ctx (gostr ''AAA'') 1000) = None"
    unfolding page1 by blast
  with t1 have s1: "sent (fst (EnumerateBlobs ex_Parse ?LB None ex_sto ex_ctx (gostr ''AAA'') 1000))
      = [SizedRef (gostr ''AAB'') 20]"
    unfolding page1 sel1p to1 by blast
  from t2 clean2 accept
  have e2: "snd (EnumerateBlobs ex_Parse ?LB None ex_sto ex_ctx [] 1000) = None"
    unfolding page2 by blast
  with t2 have s2: "sent (fst (EnumerateBlobs ex_Parse ?LB None ex_sto ex_ctx [] 1000))
      = [SizedRef (gostr ''AAA'') 10, SizedRef (gostr ''AAB'') 20]"
    unfolding page2 sel2 to2 by blast
  from e1 s1 e2 s2 show ?thesis by (intro conjI)
qed




text \<open>
  C9: whatever the fault hook, the client, the listing and the consumer do, the call
  closes the destination channel exactly once, as the last thing it does; and when the
  fault hook fires, the call does nothing but close the channel and return the hook's
  error: no request reaches the client.
\<close>

theorem EnumerateBlobs_closes_once:
  "closes (fst (EnumerateBlobs Parse ListBucket FailErr sto ctx after limit)) = 1 \<and>
   last (fst (EnumerateBlobs Parse ListBucket FailErr sto ctx after limit)) = Close \<and>
   EnumerateBlobs Parse ListBucket (Some msg) sto ctx after limit = ([Close], Some (Injected msg)) \<and>
   listings (fst (EnumerateBlobs Parse ListBucket (Some msg) sto ctx after limit)) = 0"
proof -
  have "closes (fst (EnumerateBlobs Parse ListBucket FailErr sto ctx after limit)) =
        closes (fst (EnumerateBlobs_body Parse ListBucket FailErr sto ctx after limit)) + 1"
    by (simp add: EnumerateBlobs_def closes_def case_prod_beta)
  then have "closes (fst (EnumerateBlobs Parse ListBucket FailErr sto ctx after limit)) = 1"
    by (simp add: closes_body)
  moreover have "last (fst (EnumerateBlobs Parse ListBucket FailErr sto ctx after limit)) = Close"
    by (simp add: EnumerateBlobs_def case_prod_beta)
  moreover have "EnumerateBlobs Parse ListBucket (Some msg) sto ctx after limit = ([Close], Some (Injected msg))"
    by (simp add: EnumerateBlobs_def EnumerateBlobs_body_def)
  ultimately show ?thesis by (simp add: listings_def)
qed

section \<open>Properties of the index store\<close>

text \<open>The collection: what a call that the backend serves does.\<close>

lemma next_fault_docs [simp]: "docs (snd (next_fault c)) = docs c"
  by (auto simp: next_fault_def split: list.splits)

lemma next_fault_Nil [simp]: "faults c = [] \<Longrightarrow> next_fault c = (None, c)"
  by (simp add: next_fault_def)

lemma list_ex_has_key: "list_ex (has_key k) ds \<longleftrightarrow> (\<exists>d\<in>set ds. has_key k d)"
  by (simp add: list_ex_iff)

lemma find_has_key_None: "find (has_key k) ds = None \<longleftrightarrow> \<not> (\<exists>d\<in>set ds. has_key k d)"
  by (auto simp: find_None_iff)

lemma remove_doc_absent: "\<not> (\<exists>d\<in>set ds. has_key k d) \<Longrightarrow> remove_doc k ds = ds"
  by (induction ds) auto

lemma remove_doc_present:
  "\<exists>d\<in>set ds. has_key k d \<Longrightarrow>
   \<exists>pre d post. ds = pre @ d # post \<and> has_key k d \<and> (\<forall>x\<in>set pre. \<not> has_key k x) \<and>
      remove_doc k ds = pre @ post"
proof (induction ds)
  case Nil
  then show ?case by simp
next
  case (Cons x xs)
  show ?case
  proof (cases "has_key k x")
    case True
    then have "x # xs = [] @ x # xs \<and> has_key k x \<and> (\<forall>y\<in>set []. \<not> has_key k y) \<and>
        remove_doc k (x # xs) = [] @ xs"
      by simp
    then show ?thesis by blast
  next
    case False
    with Cons.prems have "\<exists>d\<in>set xs. has_key k d" by auto
    from Cons.IH [OF this] obtain pre d post where
      "xs = pre @ d # post" "has_key k d" "\<forall>y\<in>set pre. \<not> has_key k y" "remove_doc k xs = pre @ post"
      by blast
    with False have "x # xs = (x # pre) @ d # post \<and> has_key k d \<and>
        (\<forall>y\<in>set (x # pre). \<not> has_key k y) \<and> remove_doc k (x # xs) = (x # pre) @ post"
      by simp
    then show ?thesis by blast
  qed
qed

lemma remove_doc_unique:
  "length (filter (has_key k) ds) \<le> 1 \<Longrightarrow> \<not> (\<exists>d\<in>set (remove_doc k ds). has_key k d)"
proof (induction ds)
  case Nil
  show ?case by simp
next
  case (Cons x xs)
  show ?case
  proof (cases "has_key k x")
    case True
    with Cons.prems have "length (filter (has_key k) xs) = 0" by simp
    then have "\<forall>d\<in>set xs. \<not> has_key k d"
      by (simp only: length_0_conv filter_empty_conv)
    with True show ?thesis by simp
  next
    case False
    with Cons.prems have "length (filter (has_key k) xs) \<le> 1" by simp
    from Cons.IH [OF this] False show ?thesis by simp
  qed
qed

lemma find_upsert_doc: "has_key k d \<Longrightarrow> find (has_key k) (upsert_doc k d ds) = Some d"
  by (induction ds) simp_all

lemma Remove_served:
  assumes "next_fault mk = (None, mk')"
  shows "Remove mk k = (if \<exists>d\<in>set (docs mk'). has_key k d
           then (None, mk'\<lparr>docs := remove_doc k (docs mk')\<rparr>) else (Some mgo_NotFound, mk'))"
  using assms by (simp add: Remove_def list_ex_has_key)

lemma ex_fields [simp]: "mgoKey \<noteq> mgoValue" "mgoValue \<noteq> mgoKey"
  by (simp_all add: mgoKey_def mgoValue_def)

lemma has_key_Set_doc [simp]: "has_key k [mgoKey \<mapsto> BString k, mgoValue \<mapsto> BString v]"
  by (simp add: has_key_def)

lemma commit_range_append:
  "commit_range mk (pre @ post) =
     (case commit_range mk pre of
        (Some err, mk') \<Rightarrow> (Some err, mk')
      | (None, mk') \<Rightarrow> commit_range mk' post)"
proof (induction pre arbitrary: mk)
  case Nil
  show ?case by simp
next
  case (Cons m ms)
  show ?case
  proof (cases "m_delete m")
    case True
    show ?thesis
    proof (cases "Remove mk (m_key m)")
      case (Pair e mk1)
      with True Cons.IH [of mk1] show ?thesis by (cases e) simp_all
    qed
  next
    case False
    show ?thesis
    proof (cases "Upsert mk (m_key m) [mgoKey \<mapsto> BString (m_key m), mgoValue \<mapsto> BString (m_value m)]")
      case (Pair e mk1)
      with False Cons.IH [of mk1] show ?thesis by (cases e) simp_all
    qed
  qed
qed

lemma commit_range_single:
  "commit_range mk [m] =
     (if m_delete m then Remove mk (m_key m) else Set mk (m_key m) (m_value m))"
proof (cases "m_delete m")
  case True
  show ?thesis
  proof (cases "Remove mk (m_key m)")
    case (Pair e mk1)
    with True show ?thesis by (cases e) simp_all
  qed
next
  case False
  show ?thesis
  proof (cases "Set mk (m_key m) (m_value m)")
    case (Pair e mk1)
    with False show ?thesis by (cases e) (simp_all add: Set_def)
  qed
qed

lemma Upsert_healthy:
  "faults mk = [] \<Longrightarrow> Upsert mk k d = (None, mk\<lparr>docs := upsert_doc k d (docs mk)\<rparr>)"
  by (simp add: Upsert_def)

lemma Remove_healthy:
  "faults mk = [] \<Longrightarrow> Remove mk k =
     (if \<exists>d\<in>set (docs mk). has_key k d then (None, mk\<lparr>docs := remove_doc k (docs mk)\<rparr>)
      else (Some mgo_NotFound, mk))"
  by (simp add: Remove_def list_ex_has_key)

lemma Get_healthy:
  "faults mk = [] \<Longrightarrow> find (has_key k) (docs mk) = Some d \<Longrightarrow> d mgoValue = Some (BString v) \<Longrightarrow>
   fst (Get mk k) = Returns (v, None)"
  by (simp add: Get_def Find_One_def)

lemma Get_absent:
  "faults mk = [] \<Longrightarrow> \<not> (\<exists>d\<in>set (docs mk). has_key k d) \<Longrightarrow>
   fst (Get mk k) = Returns ([], Some ErrNotFound)"
  using find_has_key_None [of k "docs mk"] by (simp add: Get_def Find_One_def)

lemma upsert_doc_has: "has_key k d \<Longrightarrow> \<exists>x\<in>set (upsert_doc k d ds). has_key k x"
  by (induction ds) auto

lemma Set_Get:
  assumes "faults mk = []"
  shows "fst (Set mk k v) = None \<and> faults (snd (Set mk k v)) = [] \<and>
    (\<exists>x\<in>set (docs (snd (Set mk k v))). has_key k x) \<and>
    fst (Get (snd (Set mk k v)) k) = Returns (v, None)"
proof -
  let ?d = "[mgoKey \<mapsto> BString k, mgoValue \<mapsto> BString v]"
  let ?mk' = "mk\<lparr>docs := upsert_doc k ?d (docs mk)\<rparr>"
  have s: "Set mk k v = (None, ?mk')"
    using assms by (simp add: Set_def Upsert_healthy)
  have f: "faults ?mk' = []" using assms by simp
  have "find (has_key k) (docs ?mk') = Some ?d"
    by (simp add: find_upsert_doc)
  from Get_healthy [OF f this, of v] have "fst (Get ?mk' k) = Returns (v, None)" by simp
  with s f show ?thesis by (simp add: upsert_doc_has)
qed
lemma commit_example:
  assumes "faults mk = []"
  shows "\<exists>mk'. CommitBatch mk (batch_Set (batch_Delete (batch_Set (BeginBatch mk) k1 v1) k1) k1 v2) = (None, mk')
           \<and> fst (Get mk' k1) = Returns (v2, None)"
proof -
  let ?s1 = "\<lparr>m_key = k1, m_value = v1, m_delete = False\<rparr>"
  let ?d = "\<lparr>m_key = k1, m_value = [], m_delete = True\<rparr>"
  let ?s2 = "\<lparr>m_key = k1, m_value = v2, m_delete = False\<rparr>"
  have b: "batch_Set (batch_Delete (batch_Set (BeginBatch mk) k1 v1) k1) k1 v2 = Batch [?s1, ?d, ?s2]"
    by (simp add: BeginBatch_def batch_Set_def batch_Delete_def)
  from Set_Get [OF assms, of k1 v1]
  obtain mk1 where s1: "Set mk k1 v1 = (None, mk1)" and f1: "faults mk1 = []"
    and has1: "\<exists>x\<in>set (docs mk1). has_key k1 x"
    by (cases "Set mk k1 v1") auto
  let ?mk2 = "mk1\<lparr>docs := remove_doc k1 (docs mk1)\<rparr>"
  have r: "Remove mk1 k1 = (None, ?mk2)"
    using has1 by (simp add: Remove_healthy [OF f1])
  have f2: "faults ?mk2 = []" using f1 by simp
  from Set_Get [OF f2, of k1 v2]
  obtain mk3 where s2: "Set ?mk2 k1 v2 = (None, mk3)" and g: "fst (Get mk3 k1) = Returns (v2, None)"
    by (cases "Set ?mk2 k1 v2") auto
  have c1: "commit_range mk [?s1] = (None, mk1)"
    by (simp only: commit_range_single) (simp add: s1)
  have c2: "commit_range mk1 [?d] = (None, ?mk2)"
    by (simp only: commit_range_single) (simp add: r)
  have c3: "commit_range ?mk2 [?s2] = (None, mk3)"
    by (simp only: commit_range_single) (simp add: s2)
  have "commit_range mk ([?s1] @ [?d] @ [?s2]) = (None, mk3)"
    by (simp only: commit_range_append c1 c2 c3 prod.case option.case)
  then have "CommitBatch mk (Batch [?s1, ?d, ?s2]) = (None, mk3)"
    by (simp add: CommitBatch_def)
  with g b show ?thesis by metis
qed

lemma commit_range_error:
  "fst (commit_range mk ms) \<noteq> Some InvalidBatchType"
proof (induction ms arbitrary: mk)
  case Nil
  show ?case by simp
next
  case (Cons m ms)
  have r: "fst (Remove c k) \<noteq> Some InvalidBatchType" for c k
    by (cases "next_fault c") (auto simp: Remove_def split: option.splits)
  have u: "fst (Upsert c k d) \<noteq> Some InvalidBatchType" for c k d
    by (cases "next_fault c") (auto simp: Upsert_def split: option.splits)
  show ?case
  proof (cases "m_delete m")
    case True
    show ?thesis
    proof (cases "Remove mk (m_key m)")
      case (Pair e mk1)
      with True Cons.IH [of mk1] r [of mk "m_key m"] show ?thesis by (cases e) simp_all
    qed
  next
    case False
    let ?d = "[mgoKey \<mapsto> BString (m_key m), mgoValue \<mapsto> BString (m_value m)]"
    show ?thesis
    proof (cases "Upsert mk (m_key m) ?d")
      case (Pair e mk1)
      with False Cons.IH [of mk1] u [of mk "m_key m" ?d] show ?thesis by (cases e) simp_all
    qed
  qed
qed

subsection \<open>Unique keys\<close>

lemma has_key_key_of: "has_key k d \<longleftrightarrow> key_of d = Some k"
  by (auto simp: has_key_def key_of_def split: option.splits bson.splits)

lemma key_in_keys: "k \<in> set (List.map_filter key_of ds) \<longleftrightarrow> (\<exists>d\<in>set ds. has_key k d)"
  by (induction ds) (auto simp: has_key_key_of split: option.splits)

lemma count_le_one:
  "distinct (List.map_filter key_of ds) \<Longrightarrow> length (filter (has_key k) ds) \<le> 1"
proof (induction ds)
  case Nil
  show ?case by simp
next
  case (Cons d ds)
  show ?case
  proof (cases "has_key k d")
    case True
    then have kd: "key_of d = Some k" by (simp add: has_key_key_of)
    with Cons.prems have "k \<notin> set (List.map_filter key_of ds)"
      by simp
    then have "filter (has_key k) ds = []"
      by (simp add: key_in_keys filter_empty_conv)
    with True show ?thesis by simp
  next
    case False
    from Cons.prems have "distinct (List.map_filter key_of ds)"
      by (simp split: option.splits)
    from Cons.IH [OF this] False show ?thesis by simp
  qed
qed

lemma unique_keys_count: "unique_keys c \<Longrightarrow> length (filter (has_key k) (docs c)) \<le> 1"
  unfolding unique_keys_def by (rule count_le_one)

lemma keys_upsert_doc:
  assumes "key_of d = Some k"
  shows "List.map_filter key_of (upsert_doc k d ds) =
     (if k \<in> set (List.map_filter key_of ds) then List.map_filter key_of ds
      else List.map_filter key_of ds @ [k])"
proof (induction ds)
  case Nil
  show ?case using assms by simp
next
  case (Cons x xs)
  show ?case
  proof (cases "has_key k x")
    case True
    then have "key_of x = Some k" by (simp add: has_key_key_of)
    with True assms show ?thesis by simp
  next
    case False
    then have "key_of x \<noteq> Some k" by (simp add: has_key_key_of)
    with False Cons.IH show ?thesis by (cases "key_of x") auto
  qed
qed

lemma keys_remove_doc:
  "List.map_filter key_of (remove_doc k ds) = remove1 k (List.map_filter key_of ds)"
proof (induction ds)
  case Nil
  show ?case by simp
next
  case (Cons x xs)
  show ?case
  proof (cases "has_key k x")
    case True
    then have "key_of x = Some k" by (simp add: has_key_key_of)
    with True show ?thesis by simp
  next
    case False
    then have "key_of x \<noteq> Some k" by (simp add: has_key_key_of)
    with False Cons.IH show ?thesis by (cases "key_of x") auto
  qed
qed

lemma next_fault_unique: "unique_keys (snd (next_fault c)) = unique_keys c"
  by (simp add: unique_keys_def)

lemma Upsert_unique:
  assumes "unique_keys mk" and "key_of d = Some k"
  shows "unique_keys (snd (Upsert mk k d))"
proof (cases "next_fault mk")
  case (Pair f mk')
  then have u: "unique_keys mk'" using assms(1) next_fault_unique [of mk] by simp
  show ?thesis
  proof (cases f)
    case None
    with Pair u show ?thesis
      by (simp add: Upsert_def unique_keys_def keys_upsert_doc [OF assms(2)])
  next
    case (Some msg)
    with Pair u show ?thesis by (simp add: Upsert_def)
  qed
qed

lemma Remove_unique:
  assumes "unique_keys mk"
  shows "unique_keys (snd (Remove mk k))"
proof (cases "next_fault mk")
  case (Pair f mk')
  then have u: "unique_keys mk'" using assms next_fault_unique [of mk] by simp
  show ?thesis
  proof (cases f)
    case None
    with Pair u show ?thesis
      by (simp add: Remove_def unique_keys_def keys_remove_doc)
  next
    case (Some msg)
    with Pair u show ?thesis by (simp add: Remove_def)
  qed
qed

lemma RemoveAll_unique:
  assumes "unique_keys mk"
  shows "unique_keys (snd (RemoveAll mk))"
proof (cases "next_fault mk")
  case (Pair f mk')
  then have u: "unique_keys mk'" using assms next_fault_unique [of mk] by simp
  show ?thesis
  proof (cases f)
    case None
    with Pair show ?thesis
      by (simp add: RemoveAll_def unique_keys_def)
  next
    case (Some msg)
    with Pair u show ?thesis by (simp add: RemoveAll_def)
  qed
qed

lemma key_of_Set_doc: "key_of [mgoKey \<mapsto> BString k, mgoValue \<mapsto> BString v] = Some k"
  by (simp add: key_of_def)

text \<open>
  The store keeps the keys of its collection unique: \<open>Set\<close>, \<open>Delete\<close> and
  \<open>CommitBatch\<close> lead from a collection with unique keys to one with unique keys.
\<close>

lemma store_keeps_keys_unique:
  assumes "unique_keys mk"
  shows "unique_keys (snd (Set mk k v))"
    and "unique_keys (snd (Delete mk k))"
    and "unique_keys (snd (CommitBatch mk bm))"
proof -
  show "unique_keys (snd (Set mk k v))"
    unfolding Set_def using assms key_of_Set_doc by (rule Upsert_unique)
  show "unique_keys (snd (Delete mk k))"
    using assms by (simp add: Delete_def Remove_unique RemoveAll_unique)
  have "unique_keys (snd (commit_range c ms))" if "unique_keys c" for c ms
    using that
  proof (induction ms arbitrary: c)
    case Nil
    then show ?case by simp
  next
    case (Cons m ms)
    show ?case
    proof (cases "m_delete m")
      case True
      show ?thesis
      proof (cases "Remove c (m_key m)")
        case (Pair e c1)
        with Remove_unique [OF Cons.prems, of "m_key m"] have "unique_keys c1" by simp
        with True Pair Cons.IH [of c1] show ?thesis by (cases e) simp_all
      qed
    next
      case False
      let ?d = "[mgoKey \<mapsto> BString (m_key m), mgoValue \<mapsto> BString (m_value m)]"
      show ?thesis
      proof (cases "Upsert c (m_key m) ?d")
        case (Pair e c1)
        with Upsert_unique [OF Cons.prems key_of_Set_doc, of "m_key m" "m_value m"]
        have "unique_keys c1" by simp
        with False Pair Cons.IH [of c1] show ?thesis by (cases e) simp_all
      qed
    qed
  qed
  with assms show "unique_keys (snd (CommitBatch mk bm))"
    by (cases bm) (simp_all add: CommitBatch_def)
qed

subsection \<open>Delete\<close>

text \<open>
  C3, as the specification states it, fails: the store holds no entry for \<open>k2\<close>, and
  \<open>Delete\<close> returns the error \<open>mgo.NotFound\<close> that \<open>Remove\<close> reports; the
  code passes it on.
\<close>

theorem Delete_absent_counterexample:
  "\<not> (\<exists>d\<in>set (docs ex_store). has_key (gostr ''k2'') d) \<and>
   fst (Delete ex_store (gostr ''k2'')) = Some mgo_NotFound"
  by (simp add: ex_store_def Delete_def Remove_def has_key_def gostr_def mgoKey_def mgoValue_def)

text \<open>
  C3, amended: when the backend serves the call, \<open>Delete\<close> of a non-empty key that
  has no entry changes nothing and returns the not-found error of the backend, not
  success; \<open>Delete\<close> of the empty key removes every entry and returns no error; and
  \<open>Delete\<close> of a non-empty key that has an entry removes one entry with that key,
  the first, leaves every other entry in place and returns no error.
\<close>

theorem Delete_cases:
  assumes "fst (next_fault mk) = None"
  shows "(k \<noteq> [] \<and> \<not> (\<exists>d\<in>set (docs mk). has_key k d) \<longrightarrow>
            fst (Delete mk k) = Some mgo_NotFound \<and> docs (snd (Delete mk k)) = docs mk) \<and>
         fst (Delete mk []) = None \<and> docs (snd (Delete mk [])) = [] \<and>
         (k \<noteq> [] \<and> (\<exists>d\<in>set (docs mk). has_key k d) \<longrightarrow>
            fst (Delete mk k) = None \<and>
            (\<exists>pre d post. docs mk = pre @ d # post \<and> has_key k d \<and>
               (\<forall>x\<in>set pre. \<not> has_key k x) \<and> docs (snd (Delete mk k)) = pre @ post))"
proof -
  from assms obtain mk' where nf: "next_fault mk = (None, mk')"
    by (metis prod.collapse)
  have d: "docs mk' = docs mk"
    using next_fault_docs [of mk] by (simp add: nf)
  have absent: "k \<noteq> [] \<and> \<not> (\<exists>d\<in>set (docs mk). has_key k d) \<longrightarrow>
      fst (Delete mk k) = Some mgo_NotFound \<and> docs (snd (Delete mk k)) = docs mk"
    by (simp add: Delete_def Remove_served [OF nf] d)
  have wipe: "fst (Delete mk []) = None" "docs (snd (Delete mk [])) = []"
    by (simp_all add: Delete_def RemoveAll_def nf)
  have present: "k \<noteq> [] \<and> (\<exists>d\<in>set (docs mk). has_key k d) \<longrightarrow>
      fst (Delete mk k) = None \<and>
      (\<exists>pre d post. docs mk = pre @ d # post \<and> has_key k d \<and>
         (\<forall>x\<in>set pre. \<not> has_key k x) \<and> docs (snd (Delete mk k)) = pre @ post)"
  proof (intro impI, elim conjE)
    assume k: "k \<noteq> []" and ex: "\<exists>d\<in>set (docs mk). has_key k d"
    then have del: "Delete mk k = (None, mk'\<lparr>docs := remove_doc k (docs mk)\<rparr>)"
      by (simp add: Delete_def Remove_served [OF nf] d)
    from remove_doc_present [OF ex] obtain pre x post where
      "docs mk = pre @ x # post" "has_key k x" "\<forall>y\<in>set pre. \<not> has_key k y"
      "remove_doc k (docs mk) = pre @ post"
      by blast
    then have "docs mk = pre @ x # post \<and> has_key k x \<and>
         (\<forall>y\<in>set pre. \<not> has_key k y) \<and> docs (snd (Delete mk k)) = pre @ post"
      by (simp add: del)
    then have "\<exists>pre d post. docs mk = pre @ d # post \<and> has_key k d \<and>
         (\<forall>x\<in>set pre. \<not> has_key k x) \<and> docs (snd (Delete mk k)) = pre @ post"
      by blast
    then show "fst (Delete mk k) = None \<and>
      (\<exists>pre d post. docs mk = pre @ d # post \<and> has_key k d \<and>
         (\<forall>x\<in>set pre. \<not> has_key k x) \<and> docs (snd (Delete mk k)) = pre @ post)"
      by (simp add: del)
  qed
  show ?thesis
    by (intro conjI) (rule absent, rule wipe, rule wipe, rule present)
qed
text \<open>
  The store with the entry \<open>k1 -> v1\<close>: deleting \<open>k2\<close> changes nothing and reports
  not-found, deleting the empty key or \<open>k1\<close> leaves no entry.
\<close>

theorem Delete_cases_witness:
  "fst (next_fault ex_store) = None \<and>
   fst (Delete ex_store (gostr ''k2'')) = Some mgo_NotFound \<and>
   docs (snd (Delete ex_store (gostr ''k2''))) = docs ex_store \<and>
   fst (Delete ex_store []) = None \<and> docs (snd (Delete ex_store [])) = [] \<and>
   fst (Delete ex_store (gostr ''k1'')) = None \<and>
   docs (snd (Delete ex_store (gostr ''k1''))) = []"
proof -
  have h: "fst (next_fault ex_store) = None"
    by (simp add: ex_store_def)
  have k2: "gostr ''k2'' \<noteq> [] \<and> \<not> (\<exists>d\<in>set (docs ex_store). has_key (gostr ''k2'') d)"
    by (simp add: ex_store_def has_key_def gostr_def)
  have k1: "docs (snd (Delete ex_store (gostr ''k1''))) = []"
    by (simp add: ex_store_def Delete_def Remove_def has_key_def gostr_def)
  have k1': "fst (Delete ex_store (gostr ''k1'')) = None"
    by (simp add: ex_store_def Delete_def Remove_def has_key_def gostr_def)
  show ?thesis
    using Delete_cases [OF h, of "gostr ''k2''"] h k2 k1 k1' by simp
qed

subsection \<open>Find\<close>

lemma tokens_plain: "plain c \<Longrightarrow> tokens (c # cs) = map_option ((#) (TLit c)) (tokens cs)"
  by (cases cs) (simp_all add: plain_def)

lemma tokens_escaped_bar: "tokens (0x5C # 0x7C # cs) = map_option ((#) (TLit 0x7C)) (tokens cs)"
  by (simp add: is_alnum_def)

lemma tokens_cleaned:
  "\<forall>c\<in>set k. plain c \<or> c = 0x7C \<Longrightarrow>
   tokens (Replace_byte k 0x7C [0x5C, 0x7C]) = Some (map TLit k)"
proof (induction k)
  case Nil
  show ?case by (simp add: Replace_byte_def)
next
  case (Cons c k)
  then have IH: "tokens (Replace_byte k 0x7C [0x5C, 0x7C]) = Some (map TLit k)" by simp
  show ?case
  proof (cases "c = 0x7C")
    case True
    then have "Replace_byte (c # k) 0x7C [0x5C, 0x7C] = 0x5C # 0x7C # Replace_byte k 0x7C [0x5C, 0x7C]"
      by (simp add: Replace_byte_def)
    then show ?thesis using True IH by (simp only: tokens_escaped_bar) simp
  next
    case False
    with Cons.prems have p: "plain c" by simp
    from False have "Replace_byte (c # k) 0x7C [0x5C, 0x7C] = c # Replace_byte k 0x7C [0x5C, 0x7C]"
      by (simp add: Replace_byte_def)
    then show ?thesis using IH by (simp only: tokens_plain [OF p]) simp
  qed
qed

lemma tokens_anchored:
  "tokens cs = Some ts \<Longrightarrow> tokens (0x5E # cs) = Some (TBol # ts)"
  by (cases cs) (simp_all add: other_meta_def)

lemma alternatives_literals: "alternatives (map TLit k) = [map TLit k]"
  by (induction k) simp_all

lemma match_here_literals: "match_here (map TLit k) b s = prefix k s"
proof (induction k arbitrary: b s)
  case Nil
  show ?case by simp
next
  case (Cons c k)
  show ?case by (cases s) (auto simp: Cons.IH)
qed

lemma match_anywhere_anchored:
  "match_anywhere (TBol # ts) b s = (b \<and> match_here ts b s)"
proof (induction s arbitrary: b)
  case Nil
  show ?case by simp
next
  case (Cons x s)
  show ?case by (simp add: Cons.IH)
qed

text \<open>
  For a prefix whose only special byte is \<open>|\<close>, the pattern that \<open>Find\<close> sends matches
  exactly the keys that start with the prefix.
\<close>

lemma Find_pattern_literal:
  assumes "\<forall>c\<in>set k. plain c \<or> c = 0x7C"
  shows "pcre_search (0x5E # Replace_byte k 0x7C [0x5C, 0x7C]) s = prefix k s"
proof -
  have "tokens (0x5E # Replace_byte k 0x7C [0x5C, 0x7C]) = Some (TBol # map TLit k)"
    using tokens_cleaned [OF assms] by (rule tokens_anchored)
  moreover have "alternatives (TBol # map TLit k) = [TBol # map TLit k]"
    by (simp add: alternatives_literals)
  ultimately show ?thesis
    by (simp add: pcre_search_def match_anywhere_anchored match_here_literals)
qed

text \<open>Whatever the dialect, the keys come in ascending order.\<close>

lemma Find_ascending: "sorted (map key_string (Iter (fst (Find re mk k))))"
  by (cases "next_fault mk")
     (auto simp: Find_def Find_Regex_Sort_Iter_def Let_def split: option.splits)

text \<open>
  C4: the code breaks the claim. \<open>Find\<close> escapes \<open>|\<close> and nothing else (the comment
  above line 292 says that the other special characters are still to be escaped), so
  the prefix \<open>a.\<close> goes to the backend as the pattern \<open>^a.\<close>, and the iterator
  yields the key \<open>abc\<close>, which does not start with the prefix, next to \<open>a.c\<close>.
\<close>

theorem Find_not_literal:
  "map fst (drain (fst (Find pcre_search ex_dotted_store (gostr ''a.'')))) = [gostr ''a.c'', gostr ''abc''] \<and>
   \<not> prefix (gostr ''a.'') (gostr ''abc'')"
  by (simp add: Find_def ex_dotted_store_def Find_Regex_Sort_Iter_def Replace_byte_def gostr_def
     regex_matches_def key_string_def pcre_search_def other_meta_def is_alnum_def IterNext_def IterKey_def IterValue_def Let_def)

subsection \<open>CommitBatch\<close>

text \<open>
  C5: \<open>CommitBatch\<close> applies the pending mutations in the order of the batch, each
  as one call to the backend: an empty batch does nothing, a batch of one mutation is
  that one call (\<open>Remove\<close> for a deletion, the upsert of \<open>Set\<close> otherwise), and a
  batch \<open>pre @ post\<close> is the batch \<open>pre\<close> and then, from the store it leaves and only
  when it returned no error, the batch \<open>post\<close>; when \<open>pre\<close> fails, its error and the
  store as it left it are the result: nothing of \<open>post\<close> is applied and nothing is
  rolled back. So on a backend that serves every call, committing
  \<open>[Set(k1, v1), Delete(k1), Set(k1, v2)]\<close> returns no error and leaves
  \<open>k1 -> v2\<close>.
\<close>

theorem CommitBatch_in_order:
  "CommitBatch mk (Batch []) = (None, mk) \<and>
   CommitBatch mk (Batch [m]) =
     (if m_delete m then Remove mk (m_key m) else Set mk (m_key m) (m_value m)) \<and>
   CommitBatch mk (Batch (pre @ post)) =
     (case CommitBatch mk (Batch pre) of
        (Some err, mk') \<Rightarrow> (Some err, mk')
      | (None, mk') \<Rightarrow> CommitBatch mk' (Batch post)) \<and>
   (faults mk = [] \<longrightarrow>
      (\<exists>mk'. CommitBatch mk (batch_Set (batch_Delete (batch_Set (BeginBatch mk) k1 v1) k1) k1 v2)
                = (None, mk') \<and>
             fst (Get mk' k1) = Returns (v2, None)))"
proof -
  have "CommitBatch mk (Batch []) = (None, mk)"
    by (simp add: CommitBatch_def)
  moreover have "CommitBatch mk (Batch [m]) =
      (if m_delete m then Remove mk (m_key m) else Set mk (m_key m) (m_value m))"
    by (simp only: CommitBatch_def BatchMutation.case commit_range_single)
  moreover have "CommitBatch mk (Batch (pre @ post)) =
     (case CommitBatch mk (Batch pre) of
        (Some err, mk') \<Rightarrow> (Some err, mk')
      | (None, mk') \<Rightarrow> CommitBatch mk' (Batch post))"
    by (simp only: CommitBatch_def BatchMutation.case commit_range_append)
  moreover have "faults mk = [] \<longrightarrow>
      (\<exists>mk'. CommitBatch mk (batch_Set (batch_Delete (batch_Set (BeginBatch mk) k1 v1) k1) k1 v2)
                = (None, mk') \<and>
             fst (Get mk' k1) = Returns (v2, None))"
    using commit_example by blast
  ultimately show ?thesis by (intro conjI)
qed

text \<open>
  On the empty store the batch \<open>[Set(k1, v1), Delete(k1), Set(k1, v2)]\<close> leaves
  \<open>k1 -> v2\<close>; and the batch \<open>[Set(a, 1), Delete(zz), Set(b, 2)]\<close> stops at the
  deletion with the backend's error: \<open>a\<close> stays set and \<open>b\<close> is never set.
\<close>

theorem CommitBatch_in_order_witness:
  "faults ex_other_store = [] \<and>
   (\<exists>mk'. CommitBatch ex_other_store
      (batch_Set (batch_Delete (batch_Set (BeginBatch ex_other_store) (gostr ''k1'') (gostr ''v1''))
         (gostr ''k1'')) (gostr ''k1'') (gostr ''v2'')) = (None, mk') \<and>
      fst (Get mk' (gostr ''k1'')) = Returns (gostr ''v2'', None)) \<and>
   fst (CommitBatch ex_other_store
      (batch_Set (batch_Delete (batch_Set (BeginBatch ex_other_store) (gostr ''a'') (gostr ''1''))
         (gostr ''zz'')) (gostr ''b'') (gostr ''2''))) = Some mgo_NotFound \<and>
   fst (Get (snd (CommitBatch ex_other_store
      (batch_Set (batch_Delete (batch_Set (BeginBatch ex_other_store) (gostr ''a'') (gostr ''1''))
         (gostr ''zz'')) (gostr ''b'') (gostr ''2'')))) (gostr ''a'')) = Returns (gostr ''1'', None) \<and>
   fst (Get (snd (CommitBatch ex_other_store
      (batch_Set (batch_Delete (batch_Set (BeginBatch ex_other_store) (gostr ''a'') (gostr ''1''))
         (gostr ''zz'')) (gostr ''b'') (gostr ''2'')))) (gostr ''b'')) = Returns ([], Some ErrNotFound)"
proof -
  have h: "faults ex_other_store = []"
    by (simp add: ex_other_store_def)
  have partial: "CommitBatch ex_other_store
      (batch_Set (batch_Delete (batch_Set (BeginBatch ex_other_store) (gostr ''a'') (gostr ''1''))
         (gostr ''zz'')) (gostr ''b'') (gostr ''2'')) =
      (Some mgo_NotFound,
       \<lparr>docs = [[mgoKey \<mapsto> BString (gostr ''a''), mgoValue \<mapsto> BString (gostr ''1'')]], faults = []\<rparr>)"
    by (simp add: ex_other_store_def BeginBatch_def batch_Set_def batch_Delete_def CommitBatch_def
          Upsert_def Remove_def has_key_def gostr_def)
  have ga: "fst (Get \<lparr>docs = [[mgoKey \<mapsto> BString (gostr ''a''), mgoValue \<mapsto> BString (gostr ''1'')]],
      faults = []\<rparr> (gostr ''a'')) = Returns (gostr ''1'', None)"
    by (simp add: Get_def Find_One_def has_key_def)
  have gb: "fst (Get \<lparr>docs = [[mgoKey \<mapsto> BString (gostr ''a''), mgoValue \<mapsto> BString (gostr ''1'')]],
      faults = []\<rparr> (gostr ''b'')) = Returns ([], Some ErrNotFound)"
    by (simp add: Get_def Find_One_def has_key_def gostr_def)
  from CommitBatch_in_order [of ex_other_store _ _ _ "gostr ''k1''" "gostr ''v1''" "gostr ''v2''"] h
  have "\<exists>mk'. CommitBatch ex_other_store
      (batch_Set (batch_Delete (batch_Set (BeginBatch ex_other_store) (gostr ''k1'') (gostr ''v1''))
         (gostr ''k1'')) (gostr ''k1'') (gostr ''v2'')) = (None, mk') \<and>
      fst (Get mk' (gostr ''k1'')) = Returns (gostr ''v2'', None)"
    by blast
  with h partial ga gb show ?thesis by simp
qed

text \<open>
  C6, as the specification states it, fails: a batch that another store's
  \<open>BeginBatch\<close> made is accepted and applied.
\<close>

theorem CommitBatch_other_store_counterexample:
  "ex_store \<noteq> ex_other_store \<and>
   fst (CommitBatch ex_store (batch_Set (BeginBatch ex_other_store) (gostr ''k'') (gostr ''v''))) = None"
  by (simp add: ex_store_def ex_other_store_def BeginBatch_def batch_Set_def CommitBatch_def Upsert_def)

text \<open>
  C6, amended: \<open>CommitBatch\<close> fails with the invalid-batch error if and only if
  its argument is not a \<open>*batch\<close>; and \<open>BeginBatch\<close> returns the same empty batch
  whatever the store, so the batch of any store is accepted by every store.
\<close>

theorem CommitBatch_invalid_batch:
  "(fst (CommitBatch mk bm) = Some InvalidBatchType) = (bm = OtherBatchMutation) \<and>
   BeginBatch mk = BeginBatch mk'"
proof (cases bm)
  case (Batch ms)
  then show ?thesis
    using commit_range_error [of mk ms] by (simp add: CommitBatch_def BeginBatch_def)
next
  case OtherBatchMutation
  then show ?thesis by (simp add: CommitBatch_def BeginBatch_def)
qed

subsection \<open>Set, Get and Delete\<close>

text \<open>
  C7: on a backend that serves every call, \<open>Set(k, v)\<close> returns no error and
  \<open>Get(k)\<close> after it returns \<open>v\<close>; \<open>Get(k)\<close> after \<open>Delete(k)\<close> fails with
  \<open>ErrNotFound\<close>, for a collection that holds at most one entry for \<open>k\<close> (entries are
  unique by key); and the iterator of \<open>Find("")\<close> after \<open>Delete("")\<close> yields nothing,
  whatever the pattern dialect.
\<close>

theorem Set_Get_Delete:
  assumes "faults mk = []"
  shows "fst (Set mk k v) = None \<and> fst (Get (snd (Set mk k v)) k) = Returns (v, None) \<and>
    (length (filter (has_key k) (docs mk)) \<le> 1 \<longrightarrow>
       fst (Get (snd (Delete mk k)) k) = Returns ([], Some ErrNotFound)) \<and>
    fst (IterNext (fst (Find re (snd (Delete mk [])) []))) = False"
proof -
  have del: "fst (Get (snd (Delete mk k)) k) = Returns ([], Some ErrNotFound)"
    if u: "length (filter (has_key k) (docs mk)) \<le> 1"
  proof (cases "k = []")
    case True
    have "Delete mk k = (None, mk\<lparr>docs := []\<rparr>)"
      using assms True by (simp add: Delete_def RemoveAll_def)
    moreover have "fst (Get (mk\<lparr>docs := []\<rparr>) k) = Returns ([], Some ErrNotFound)"
      using assms by (intro Get_absent) simp_all
    ultimately show ?thesis by simp
  next
    case False
    show ?thesis
    proof (cases "\<exists>d\<in>set (docs mk). has_key k d")
      case True
      with False have "Delete mk k = (None, mk\<lparr>docs := remove_doc k (docs mk)\<rparr>)"
        using assms by (simp add: Delete_def Remove_healthy)
      moreover have "fst (Get (mk\<lparr>docs := remove_doc k (docs mk)\<rparr>) k) = Returns ([], Some ErrNotFound)"
        using assms remove_doc_unique [OF u] by (intro Get_absent) simp_all
      ultimately show ?thesis by simp
    next
      case no: False
      with False have "Delete mk k = (Some mgo_NotFound, mk)"
        using assms by (simp add: Delete_def Remove_healthy)
      moreover have "fst (Get mk k) = Returns ([], Some ErrNotFound)"
        using assms no by (intro Get_absent) simp_all
      ultimately show ?thesis by simp
    qed
  qed
  have "Delete mk [] = (None, mk\<lparr>docs := []\<rparr>)"
    using assms by (simp add: Delete_def RemoveAll_def)
  then have wipe: "fst (IterNext (fst (Find re (snd (Delete mk [])) []))) = False"
    using assms by (simp add: Find_def Find_Regex_Sort_Iter_def IterNext_def Let_def)
  from Set_Get [OF assms, of k v] del wipe show ?thesis by simp
qed

text \<open>
  The store with the entry \<open>k1 -> v1\<close>: \<open>k1\<close> reads \<open>v9\<close> after it is set to
  \<open>v9\<close>, is not found after it is deleted, and nothing is found after the wipe.
\<close>

theorem Set_Get_Delete_witness:
  "faults ex_store = [] \<and> length (filter (has_key (gostr ''k1'')) (docs ex_store)) \<le> 1 \<and>
   fst (Get (snd (Set ex_store (gostr ''k1'') (gostr ''v9''))) (gostr ''k1'')) = Returns (gostr ''v9'', None) \<and>
   fst (Get (snd (Delete ex_store (gostr ''k1''))) (gostr ''k1'')) = Returns ([], Some ErrNotFound) \<and>
   fst (IterNext (fst (Find pcre_search (snd (Delete ex_store [])) []))) = False"
proof -
  have h: "faults ex_store = []"
    by (simp add: ex_store_def)
  have u: "length (filter (has_key (gostr ''k1'')) (docs ex_store)) \<le> 1"
    by (simp add: ex_store_def)
  from Set_Get_Delete [OF h, of "gostr ''k1''" "gostr ''v9''" pcre_search] h u
  show ?thesis by simp
qed

text \<open>
  C10: when the document that the backend returns for \<open>Get(key)\<close> has a \<open>value\<close>
  field that is not a string (or none), the type assertion of line 284 panics: \<open>Get\<close>
  returns neither a value nor an error. The iterator's \<open>Value\<close> on the same document
  returns the empty string, and so does \<open>Key\<close> on a document whose \<open>key\<close> is not a
  string.
\<close>

theorem Get_panics:
  assumes "fst (Find_One mk k) = Inr r" and "\<forall>v. r mgoValue \<noteq> Some (BString v)"
  shows "fst (Get mk k) = Panics \<and> IterValue \<lparr>res = r, Iter = ds\<rparr> = [] \<and>
         ((\<forall>s. d mgoKey \<noteq> Some (BString s)) \<longrightarrow> IterKey \<lparr>res = d, Iter = ds\<rparr> = [])"
proof -
  from assms(1) obtain mk' where f: "Find_One mk k = (Inr r, mk')"
    by (metis prod.collapse)
  have g: "fst (Get mk k) = Panics"
  proof (cases "r mgoValue")
    case None
    then show ?thesis by (simp add: Get_def f)
  next
    case (Some b)
    with assms(2) show ?thesis by (cases b) (simp_all add: Get_def f)
  qed
  have v: "IterValue \<lparr>res = r, Iter = ds\<rparr> = []"
  proof (cases "r mgoValue")
    case None
    then show ?thesis by (simp add: IterValue_def)
  next
    case (Some b)
    with assms(2) show ?thesis by (cases b) (simp_all add: IterValue_def)
  qed
  have k: "(\<forall>s. d mgoKey \<noteq> Some (BString s)) \<longrightarrow> IterKey \<lparr>res = d, Iter = ds\<rparr> = []"
  proof
    assume a: "\<forall>s. d mgoKey \<noteq> Some (BString s)"
    show "IterKey \<lparr>res = d, Iter = ds\<rparr> = []"
    proof (cases "d mgoKey")
      case None
      then show ?thesis by (simp add: IterKey_def)
    next
      case (Some b)
      with a show ?thesis by (cases b) (simp_all add: IterKey_def)
    qed
  qed
  from g v k show ?thesis by (intro conjI)
qed
text \<open>
  The store whose document for \<open>k1\<close> holds the number 7 as its value.
\<close>

theorem Get_panics_witness:
  "fst (Find_One ex_bad_store (gostr ''k1'')) =
     Inr [mgoKey \<mapsto> BString (gostr ''k1''), mgoValue \<mapsto> BInt 7] \<and>
   fst (Get ex_bad_store (gostr ''k1'')) = Panics \<and>
   IterValue \<lparr>res = [mgoKey \<mapsto> BString (gostr ''k1''), mgoValue \<mapsto> BInt 7], Iter = []\<rparr> = [] \<and>
   IterKey \<lparr>res = [mgoKey \<mapsto> BInt 3], Iter = []\<rparr> = []"
proof -
  let ?r = "[mgoKey \<mapsto> BString (gostr ''k1''), mgoValue \<mapsto> BInt 7]"
  have f: "fst (Find_One ex_bad_store (gostr ''k1'')) = Inr ?r"
    by (simp add: ex_bad_store_def Find_One_def has_key_def)
  have v: "\<forall>v. ?r mgoValue \<noteq> Some (BString v)"
    by simp
  have k: "\<forall>s. [mgoKey \<mapsto> BInt 3] mgoKey \<noteq> Some (BString s)"
    by simp
  from Get_panics [OF f v, where d = "[mgoKey \<mapsto> BInt 3]" and ds = "[]"] f k
  show ?thesis by blast
qed

end
